theory Spec2Isabelle
  imports
    Main
    "HOL-Library.Sublist"
    "HOL-Library.Char_ord"
    "HOL-Library.List_Lexorder"
    "HOL-Library.Product_Lexorder"
begin

section \<open>Python strings and lists\<close>

text \<open>
  A Python \<open>str\<close> is modelled as a \<^typ>\<open>string\<close>, a list of 8-bit characters: the model
  covers the code points below 256, compared by code point as Python compares them.
\<close>

text \<open>\<open>sep.join(xs)\<close>.\<close>

fun join :: "string \<Rightarrow> string list \<Rightarrow> string" where
  "join sep [] = []"
| "join sep [x] = x"
| "join sep (x # y # ys) = x @ sep @ join sep (y # ys)"

text \<open>\<open>str.isspace\<close> on one character: the set \<open>str.strip()\<close> removes.\<close>

definition is_space :: "char \<Rightarrow> bool" where
  "is_space c \<longleftrightarrow> c \<in> set [CHR 0x09, CHR 0x0A, CHR 0x0B, CHR 0x0C, CHR 0x0D,
     CHR 0x1C, CHR 0x1D, CHR 0x1E, CHR 0x1F, CHR 0x20, CHR 0x85, CHR 0xA0]"

definition rstrip_with :: "(char \<Rightarrow> bool) \<Rightarrow> string \<Rightarrow> string" where
  "rstrip_with p s = rev (dropWhile p (rev s))"

text \<open>\<open>s.rstrip()\<close>, \<open>s.strip()\<close> and \<open>s.rstrip('/')\<close>.\<close>

definition rstrip :: "string \<Rightarrow> string" where
  "rstrip s = rstrip_with is_space s"

definition strip :: "string \<Rightarrow> string" where
  "strip s = dropWhile is_space (rstrip s)"

definition rstrip_slash :: "string \<Rightarrow> string" where
  "rstrip_slash s = rstrip_with (\<lambda>c. c = CHR ''/'') s"

text \<open>The line boundaries of \<open>str.splitlines\<close> (those below code point 256).\<close>

definition is_linebreak :: "char \<Rightarrow> bool" where
  "is_linebreak c \<longleftrightarrow> c \<in> set [CHR 0x0A, CHR 0x0D, CHR 0x0B, CHR 0x0C,
     CHR 0x1C, CHR 0x1D, CHR 0x1E, CHR 0x85]"

text \<open>
  \<open>s.splitlines(keepends)\<close>: \<open>acc\<close> is the line read so far. A carriage return followed
  by a line feed is one boundary, and a string that ends at a boundary has no empty
  last line.
\<close>

fun splitlines_from :: "bool \<Rightarrow> string \<Rightarrow> string \<Rightarrow> string list" where
  "splitlines_from keep acc [] = (if acc = [] then [] else [acc])"
| "splitlines_from keep acc [c] =
     (if is_linebreak c then [acc @ (if keep then [c] else [])] else [acc @ [c]])"
| "splitlines_from keep acc (c # d # cs) =
     (if c = CHR 0x0D \<and> d = CHR 0x0A
      then (acc @ (if keep then [c, d] else [])) # splitlines_from keep [] cs
      else if is_linebreak c
      then (acc @ (if keep then [c] else [])) # splitlines_from keep [] (d # cs)
      else splitlines_from keep (acc @ [c]) (d # cs))"

definition splitlines :: "bool \<Rightarrow> string \<Rightarrow> string list" where
  "splitlines keep s = splitlines_from keep [] s"

text \<open>\<open>s.split(',')\<close>: splitting at every occurrence of one separator character.\<close>

fun split_from :: "char \<Rightarrow> string \<Rightarrow> string \<Rightarrow> string list" where
  "split_from sep acc [] = [acc]"
| "split_from sep acc (c # cs) =
     (if c = sep then acc # split_from sep [] cs else split_from sep (acc @ [c]) cs)"

definition split :: "char \<Rightarrow> string \<Rightarrow> string list" where
  "split sep s = split_from sep [] s"

text \<open>
  \<open>s.replace(old, new)\<close>: the occurrences of \<open>old\<close> are replaced from the left and do
  not overlap; \<open>skip\<close> counts the characters of a replaced occurrence still to pass.
  For an empty \<open>old\<close> Python puts \<open>new\<close> before every character and at the end.
\<close>

fun replace_from :: "string \<Rightarrow> string \<Rightarrow> nat \<Rightarrow> string \<Rightarrow> string" where
  "replace_from old new skip [] = []"
| "replace_from old new (Suc k) (c # cs) = replace_from old new k cs"
| "replace_from old new 0 (c # cs) =
     (if prefix old (c # cs) then new @ replace_from old new (length old - 1) cs
      else c # replace_from old new 0 cs)"

definition replace :: "string \<Rightarrow> string \<Rightarrow> string \<Rightarrow> string" where
  "replace old new s =
     (if old = [] then concat (map (\<lambda>c. new @ [c]) s) @ new else replace_from old new 0 s)"

text \<open>The slices \<open>xs[:k]\<close> and \<open>xs[j:]\<close> for a Python integer, negative ones counted from the end.\<close>

definition slice_to :: "int \<Rightarrow> 'a list \<Rightarrow> 'a list" where
  "slice_to k xs = (if k < 0 then take (length xs - nat (- k)) xs else take (nat k) xs)"

definition slice_from :: "int \<Rightarrow> 'a list \<Rightarrow> 'a list" where
  "slice_from j xs = (if j < 0 then drop (length xs - nat (- j)) xs else drop (nat j) xs)"

text \<open>\<open>'%d' % n\<close> and \<open>str(n)\<close> for a length or a difference of lengths.\<close>

definition digit_char :: "nat \<Rightarrow> char" where
  "digit_char d = char_of (48 + d)"

fun str_nat :: "nat \<Rightarrow> string" where
  "str_nat n = (if n < 10 then [digit_char n] else str_nat (n div 10) @ [digit_char (n mod 10)])"

declare str_nat.simps [simp del]

section \<open>Regular expressions\<close>

text \<open>
  The fragment of Python's \<open>re\<close> the script uses: literals, character classes, greedy
  repetition of a class, sequence, alternative, numbered groups and the two anchors.
\<close>

datatype rx =
    Eps
  | Lit char
  | Cls "char \<Rightarrow> bool"
  | Star "char \<Rightarrow> bool"
  | Plus "char \<Rightarrow> bool"
  | Seq rx rx
  | Alt rx rx
  | Grp nat rx
  | Bol
  | Eol

type_synonym caps = "(nat \<times> nat \<times> nat) list"

text \<open>
  A backtracking matcher as a list of successes: every way to match from position \<open>i\<close>
  of \<open>s\<close>, as the end position and the groups recorded, in the order in which Python's
  engine tries them (a greedy repetition longest first, the left alternative first).
  \<open>ml\<close> is the \<open>(?m)\<close> flag.
\<close>

fun rmatch :: "bool \<Rightarrow> rx \<Rightarrow> string \<Rightarrow> nat \<times> caps \<Rightarrow> (nat \<times> caps) list" where
  "rmatch ml Eps s (i, g) = [(i, g)]"
| "rmatch ml (Lit c) s (i, g) = (if i < length s \<and> s ! i = c then [(Suc i, g)] else [])"
| "rmatch ml (Cls p) s (i, g) = (if i < length s \<and> p (s ! i) then [(Suc i, g)] else [])"
| "rmatch ml (Star p) s (i, g) =
     map (\<lambda>k. (i + k, g)) (rev [0 ..< Suc (length (takeWhile p (drop i s)))])"
| "rmatch ml (Plus p) s (i, g) =
     map (\<lambda>k. (i + k, g)) (rev [1 ..< Suc (length (takeWhile p (drop i s)))])"
| "rmatch ml (Seq a b) s st = concat (map (rmatch ml b s) (rmatch ml a s st))"
| "rmatch ml (Alt a b) s st = rmatch ml a s st @ rmatch ml b s st"
| "rmatch ml (Grp n a) s (i, g) = map (\<lambda>(j, g'). (j, (n, i, j) # g')) (rmatch ml a s (i, g))"
| "rmatch ml Bol s (i, g) =
     (if i = 0 \<or> (ml \<and> i \<le> length s \<and> s ! (i - 1) = CHR 0x0A) then [(i, g)] else [])"
| "rmatch ml Eol s (i, g) =
     (if i = length s \<or> (i < length s \<and> s ! i = CHR 0x0A \<and> (ml \<or> Suc i = length s))
      then [(i, g)] else [])"

definition lits :: "string \<Rightarrow> rx" where
  "lits str = foldr (\<lambda>c r. Seq (Lit c) r) str Eps"

definition seqs :: "rx list \<Rightarrow> rx" where
  "seqs rs = foldr Seq rs Eps"

text \<open>\<open>re.match(p, s)\<close> as a truth value: some match starts at position 0.\<close>

definition re_match :: "bool \<Rightarrow> rx \<Rightarrow> string \<Rightarrow> bool" where
  "re_match ml p s \<longleftrightarrow> rmatch ml p s (0, []) \<noteq> []"

text \<open>The leftmost match at or after a position: \<open>k\<close> start positions are still to try.\<close>

fun search_from :: "bool \<Rightarrow> rx \<Rightarrow> string \<Rightarrow> nat \<Rightarrow> nat \<Rightarrow> (nat \<times> nat \<times> caps) option" where
  "search_from ml p s 0 i = None"
| "search_from ml p s (Suc k) i =
     (case rmatch ml p s (i, []) of
        [] \<Rightarrow> search_from ml p s k (Suc i)
      | (e, g) # _ \<Rightarrow> Some (i, e, g))"

definition search :: "bool \<Rightarrow> rx \<Rightarrow> string \<Rightarrow> nat \<Rightarrow> (nat \<times> nat \<times> caps) option" where
  "search ml p s pos = search_from ml p s (Suc (length s) - pos) pos"

text \<open>The text of group \<open>n\<close> of a match (every group of the script's patterns takes part).\<close>

definition group_text :: "string \<Rightarrow> caps \<Rightarrow> nat \<Rightarrow> string" where
  "group_text s g n =
     (case map_of g n of None \<Rightarrow> [] | Some (a, b) \<Rightarrow> take (b - a) (drop a s))"

lemma search_from_bounds:
  "search_from ml p s k i0 = Some (i, e, g) \<Longrightarrow> i0 \<le> i \<and> i < i0 + k"
proof (induction k arbitrary: i0)
  case 0
  then show ?case by simp
next
  case (Suc k)
  show ?case
  proof (cases "rmatch ml p s (i0, [])")
    case Nil
    with Suc.prems have "search_from ml p s k (Suc i0) = Some (i, e, g)" by simp
    from Suc.IH [OF this] show ?thesis by simp
  next
    case (Cons a as)
    with Suc.prems show ?thesis by (cases a) simp
  qed
qed

lemma search_bounds:
  assumes "search ml p s pos = Some (i, e, g)"
  shows "pos \<le> i" and "i \<le> length s"
proof -
  from assms have "search_from ml p s (Suc (length s) - pos) pos = Some (i, e, g)"
    by (simp add: search_def)
  from search_from_bounds [OF this]
  have b: "pos \<le> i \<and> i < pos + (Suc (length s) - pos)" .
  then show "pos \<le> i" by simp
  from b show "i \<le> length s" by arith
qed

text \<open>
  \<open>re.sub(p, template, s)\<close> from position \<open>pos\<close>, for a template that is a sequence of
  group references: the text between matches is kept, each leftmost match is replaced,
  and the search goes on behind the match (one character further after an empty match).
\<close>

function sub_from :: "bool \<Rightarrow> rx \<Rightarrow> nat list \<Rightarrow> string \<Rightarrow> nat \<Rightarrow> string" where
  "sub_from ml p tmpl s pos =
     (case search ml p s pos of
        None \<Rightarrow> drop pos s
      | Some (i, e, g) \<Rightarrow>
          take (i - pos) (drop pos s) @ concat (map (group_text s g) tmpl) @
          (if i < e then sub_from ml p tmpl s e
           else if i < length s then s ! i # sub_from ml p tmpl s (Suc i)
           else []))"
  by pat_completeness auto
termination
proof (relation "measure (\<lambda>(ml, p, tmpl, s, pos). Suc (length s) - pos)")
  show "wf (measure (\<lambda>(ml, p, tmpl, s, pos). Suc (length s) - pos))" by simp
next
  fix ml p tmpl s pos x2 i y e g
  assume "search ml p s pos = Some x2" "(i, y) = x2" "(e, g) = y" "i < e"
  then have "search ml p s pos = Some (i, e, g)" by simp
  from search_bounds [OF this] \<open>i < e\<close>
  show "((ml, p, tmpl, s, e), ml, p, tmpl, s, pos)
          \<in> measure (\<lambda>(ml, p, tmpl, s, pos). Suc (length s) - pos)"
    by simp
next
  fix ml p tmpl s pos x2 i y e g
  assume "search ml p s pos = Some x2" "(i, y) = x2" "(e, g) = y" "i < length s"
  then have "search ml p s pos = Some (i, e, g)" by simp
  from search_bounds [OF this] \<open>i < length s\<close>
  show "((ml, p, tmpl, s, Suc i), ml, p, tmpl, s, pos)
          \<in> measure (\<lambda>(ml, p, tmpl, s, pos). Suc (length s) - pos)"
    by simp
qed

declare sub_from.simps [simp del]

definition re_sub :: "bool \<Rightarrow> rx \<Rightarrow> nat list \<Rightarrow> string \<Rightarrow> string" where
  "re_sub ml p tmpl s = sub_from ml p tmpl s 0"

section \<open>The patterns of the script\<close>

definition is_digit :: "char \<Rightarrow> bool" where
  "is_digit c \<longleftrightarrow> c \<in> set ''0123456789''"

definition is_hex :: "char \<Rightarrow> bool" where
  "is_hex c \<longleftrightarrow> c \<in> set ''abcdef0123456789''"

text \<open>\<open>\d\d\d\d-\d\d-\d\d\<close> followed by a space.\<close>

definition date_rx :: rx where
  "date_rx = seqs [Cls is_digit, Cls is_digit, Cls is_digit, Cls is_digit, Lit CHR ''-'',
     Cls is_digit, Cls is_digit, Lit CHR ''-'', Cls is_digit, Cls is_digit, Lit CHR '' '']"

text \<open>
  \<open>_ROLL_SUBJECT\<close>: date, author, and a subject that is either
  \<open>Roll [^ ]+ [a-f0-9]+\.\.[a-f0-9]+ \(\d+ commits\)\<close> or
  \<open>Roll recipe dependencies \(trivial\)\.\<close>, up to the end of the line.
\<close>

definition ROLL_SUBJECT :: rx where
  "ROLL_SUBJECT = seqs [Bol, date_rx, Plus (\<lambda>c. c \<noteq> CHR '' ''), Lit CHR '' '',
     Grp 1 (Alt
       (seqs [lits ''Roll '', Plus (\<lambda>c. c \<noteq> CHR '' ''), Lit CHR '' '', Plus is_hex,
              lits ''..'', Plus is_hex, lits '' ('', Plus is_digit, lits '' commits)''])
       (lits ''Roll recipe dependencies (trivial).'')),
     Eol]"

text \<open>\<open>(?m)^(\d\d\d\d-\d\d-\d\d [^@]+)@[^ ]+( .*)$\<close>, replaced by \<open>\1\2\<close>.\<close>

definition AUTHOR_DOMAIN :: rx where
  "AUTHOR_DOMAIN = seqs [Bol, Grp 1 (Seq date_rx (Plus (\<lambda>c. c \<noteq> CHR ''@''))),
     Lit CHR ''@'', Plus (\<lambda>c. c \<noteq> CHR '' ''),
     Grp 2 (Seq (Lit CHR '' '') (Star (\<lambda>c. c \<noteq> CHR 0x0A))), Eol]"

text \<open>\<open>https://[^/]*\.googlesource\.com/\<close>.\<close>

definition GOOGLESOURCE :: rx where
  "GOOGLESOURCE = Seq (lits ''https://'')
     (Seq (Star (\<lambda>c. c \<noteq> CHR ''/'')) (lits ''.googlesource.com/''))"

section \<open>The pure functions of roll\_dep.py\<close>

text \<open>\<open>get_log_url\<close>: the URL of a log in a web interface, or \<open>None\<close>.\<close>

definition get_log_url :: "string \<Rightarrow> string \<Rightarrow> string \<Rightarrow> string option" where
  "get_log_url upstream_url head tot =
     (if re_match False GOOGLESOURCE upstream_url
      then Some (upstream_url @ ''/+log/'' @ take 12 head @ ''..'' @ take 12 tot)
      else if prefix ''https://github.com/'' upstream_url
      then (let u = rstrip_slash upstream_url;
                u' = (if suffix ''.git'' u then slice_to (- int (length ''.git'')) u else u)
            in Some (u' @ ''/compare/'' @ take 12 head @ ''...'' @ take 12 tot))
      else None)"

text \<open>\<open>should_show_log\<close>: no short log for the very active projects.\<close>

definition should_show_log :: "string \<Rightarrow> bool" where
  "should_show_log upstream_url =
     (if suffix ''/v8/v8.git'' upstream_url then False
      else if sublist ''webrtc'' upstream_url then False
      else True)"

text \<open>
  \<open>gen_commit_msg\<close>. The reviewers and the bug are optional (\<open>None\<close> in Python); a
  conditional expression of the source tests their truth value, which an empty list
  and an empty string lack too.
\<close>

definition gen_commit_msg ::
  "string list \<Rightarrow> string \<Rightarrow> string list option \<Rightarrow> string option \<Rightarrow> string" where
  "gen_commit_msg logs cmdline reviewers bug =
     (if length logs > 1
      then ''Rolling '' @ str_nat (length logs) @ '' dependencies'' @ [CHR 0x0A, CHR 0x0A]
      else [])
     @ join [CHR 0x0A, CHR 0x0A] logs
     @ [CHR 0x0A] @ ''Created with:'' @ [CHR 0x0A] @ ''  '' @ cmdline @ [CHR 0x0A]
     @ (case reviewers of
          None \<Rightarrow> []
        | Some rs \<Rightarrow> if rs = [] then [] else ''R='' @ join '','' rs @ [CHR 0x0A])
     @ (case bug of
          None \<Rightarrow> []
        | Some b \<Rightarrow> if b = [] then [] else [CHR 0x0A] @ ''Bug: '' @ b @ [CHR 0x0A])"

text \<open>
  The reviewer loop of \<open>main\<close>: \<open>for i, r in enumerate(reviewers)\<close> over the list it
  updates in place; \<open>k\<close> elements are still to visit.
\<close>

fun add_domains :: "nat \<Rightarrow> nat \<Rightarrow> string list \<Rightarrow> string list" where
  "add_domains 0 i reviewers = reviewers"
| "add_domains (Suc k) i reviewers =
     (let r = reviewers ! i
      in add_domains k (Suc i)
           (if CHR ''@'' \<notin> set r then reviewers[i := r @ ''@chromium.org''] else reviewers))"

text \<open>The reviewers of \<open>main\<close> from the parsed \<open>--reviewer\<close> arguments.\<close>

definition main_reviewers :: "string list option \<Rightarrow> string list option" where
  "main_reviewers reviewer =
     (case reviewer of
        None \<Rightarrow> None
      | Some rs \<Rightarrow>
          if rs = [] then None
          else (let reviewers = concat (map (split CHR '','') rs)
                in Some (add_domains (length reviewers) 0 reviewers)))"

section \<open>External commands and exceptions\<close>

text \<open>
  What the script does to the outside: it runs a command (the argument vector and the
  working directory), writes the commit message to a fresh temporary file, and removes
  that file. The trace of a run is the list of these events in the order they happen.
  What the script prints is not part of the trace, and decoding the output of a command
  and the two file operations do not fail here.
\<close>

datatype event =
    Subprocess "string list" "string option"
  | TempWrite string string
  | RemoveFile string

text \<open>
  The exceptions that reach \<open>main\<close>: the script's own \<open>Error\<close> and \<open>AlreadyRolledError\<close>,
  \<open>subprocess2.CalledProcessError\<close> of a command that exits non-zero, and Python's
  \<open>NameError\<close> for a name that is not bound.
\<close>

datatype exn =
    Error string
  | AlreadyRolledError string
  | CalledProcessError
  | NameError string

text \<open>
  The outside world answers as a function of everything done to it so far: \<open>run\<close> gives
  the return code and the decoded standard output of a command, \<open>isdir\<close> and \<open>isfile\<close>
  are \<open>os.path.isdir\<close> and \<open>os.path.isfile\<close>, \<open>mktemp\<close> names the temporary file.
  \<open>os.getcwd()\<close>, \<open>sys.executable\<close>, the module constant \<open>GCLIENT_PATH\<close> and the library
  functions \<open>os.path.join\<close> and \<open>os.path.normpath\<close> are parameters.
\<close>

record world =
  run :: "event list \<Rightarrow> string list \<Rightarrow> string option \<Rightarrow> int \<times> string"
  isdir :: "event list \<Rightarrow> string \<Rightarrow> bool"
  isfile :: "event list \<Rightarrow> string \<Rightarrow> bool"
  mktemp :: "event list \<Rightarrow> string"
  getcwd :: string
  sys_executable :: string
  GCLIENT_PATH :: string
  path_join :: "string \<Rightarrow> string \<Rightarrow> string"
  normpath :: "string \<Rightarrow> string"

text \<open>A computation takes the trace so far and gives a value or an exception, and the new trace.\<close>

type_synonym 'a io = "event list \<Rightarrow> (exn + 'a) \<times> event list"

definition ret :: "'a \<Rightarrow> 'a io" where
  "ret x = (\<lambda>t. (Inr x, t))"

definition raise :: "exn \<Rightarrow> 'a io" where
  "raise e = (\<lambda>t. (Inl e, t))"

definition bind :: "'a io \<Rightarrow> ('a \<Rightarrow> 'b io) \<Rightarrow> 'b io" where
  "bind m f = (\<lambda>t. case m t of (Inl e, t') \<Rightarrow> (Inl e, t') | (Inr x, t') \<Rightarrow> f x t')"

text \<open>\<open>check_output\<close> and \<open>check_call\<close>: a non-zero return code raises \<open>CalledProcessError\<close>.\<close>

definition check_output :: "world \<Rightarrow> string list \<Rightarrow> string option \<Rightarrow> string io" where
  "check_output w argv cwd =
     (\<lambda>t. case run w t argv cwd of
             (rc, out) \<Rightarrow>
               (if rc \<noteq> 0 then Inl CalledProcessError else Inr out,
                t @ [Subprocess argv cwd]))"

definition check_call :: "world \<Rightarrow> string list \<Rightarrow> string option \<Rightarrow> unit io" where
  "check_call w argv cwd =
     (\<lambda>t. case run w t argv cwd of
             (rc, out) \<Rightarrow>
               (if rc \<noteq> 0 then Inl CalledProcessError else Inr (),
                t @ [Subprocess argv cwd]))"

text \<open>\<open>os.path.isdir\<close> and \<open>os.path.isfile\<close> ask the world and leave no event.\<close>

definition os_isdir :: "world \<Rightarrow> string \<Rightarrow> bool io" where
  "os_isdir w path = (\<lambda>t. (Inr (isdir w t path), t))"

definition os_isfile :: "world \<Rightarrow> string \<Rightarrow> bool io" where
  "os_isfile w path = (\<lambda>t. (Inr (isfile w t path), t))"

text \<open>The \<open>with tempfile.NamedTemporaryFile(...)\<close> block of \<open>finalize\<close>, and \<open>os.remove\<close>.\<close>

definition write_temp :: "world \<Rightarrow> string \<Rightarrow> string io" where
  "write_temp w content = (\<lambda>t. (Inr (mktemp w t), t @ [TempWrite (mktemp w t) content]))"

definition os_remove :: "string \<Rightarrow> unit io" where
  "os_remove name = (\<lambda>t. (Inr (), t @ [RemoveFile name]))"

section \<open>The functions of roll\_dep.py that run commands\<close>

definition is_pristine :: "world \<Rightarrow> string \<Rightarrow> bool io" where
  "is_pristine w root =
     (let diff_cmd = [''git'', ''diff'', ''--ignore-submodules'', ''origin/main''] in
      bind (check_output w diff_cmd (Some root)) (\<lambda>out1.
        if strip out1 \<noteq> [] then ret False
        else bind (check_output w (diff_cmd @ [''--cached'']) (Some root)) (\<lambda>out2.
          ret (strip out2 = []))))"

definition gclient :: "world \<Rightarrow> string list \<Rightarrow> string io" where
  "gclient w args =
     bind (check_output w ([sys_executable w, GCLIENT_PATH w] @ args) None) (\<lambda>out.
       ret (strip out))"

text \<open>The lines of the log after the author's domain is cut: \<open>lines\<close> of the source.\<close>

definition log_lines :: "string \<Rightarrow> string list" where
  "log_lines out = splitlines False (re_sub True AUTHOR_DOMAIN [1, 2] (rstrip out))"

text \<open>\<open>cleaned_lines\<close> of the source: the lines that are not roll subjects.\<close>

definition cleaned_lines :: "string \<Rightarrow> string list" where
  "cleaned_lines out = filter (\<lambda>l. \<not> re_match False ROLL_SUBJECT l) (log_lines out)"

text \<open>The header of the message of one dependency.\<close>

definition roll_header :: "string \<Rightarrow> string \<Rightarrow> string \<Rightarrow> string \<Rightarrow> string" where
  "roll_header dependency head roll_to out =
     (let commit_range_for_header = take 9 head @ ''..'' @ take 9 roll_to;
          nb_commits = length (log_lines out);
          rolls = nb_commits - length (cleaned_lines out)
      in ''Roll '' @ dependency @ ''/ '' @ commit_range_for_header @ '' (''
         @ str_nat nb_commits @ '' commit'' @ (if nb_commits > 1 then ''s'' else [])
         @ (if rolls \<noteq> 0 then ''; '' @ str_nat rolls @ '' trivial rolls'' else [])
         @ '')'' @ [CHR 0x0A, CHR 0x0A])"

text \<open>The URL and the command line of the log section, with the range shortened.\<close>

definition log_section_head :: "string \<Rightarrow> string \<Rightarrow> string \<Rightarrow> string" where
  "log_section_head upstream_url head roll_to =
     (let commit_range = head @ ''..'' @ roll_to;
          commit_range_for_header = take 9 head @ ''..'' @ take 9 roll_to;
          cmd = [''git'', ''log'', commit_range, ''--date=short'', ''--no-merges''];
          log_section = (case get_log_url upstream_url head roll_to of
                           None \<Rightarrow> []
                         | Some log_url \<Rightarrow>
                             if log_url = [] then [] else log_url @ [CHR 0x0A, CHR 0x0A]);
          log_section = log_section @ ''$ '' @ join '' '' cmd @ '' '';
          log_section = log_section @ ''--format='' @ [CHR 0x27] @ ''%ad %ae %s''
                          @ [CHR 0x27, CHR 0x0A]
      in replace commit_range commit_range_for_header log_section)"

text \<open>The log body that is added to the section: trimmed when it has more entries than the limit.\<close>

definition log_body :: "int \<Rightarrow> string \<Rightarrow> string" where
  "log_body log_limit out =
     (let logs = join [CHR 0x0A] (cleaned_lines out) @ [CHR 0x0A] in
      if int (length (cleaned_lines out)) > log_limit
      then (let lines = splitlines True logs;
                lines = slice_to (log_limit div 2) lines @ [''(...)'' @ [CHR 0x0A]]
                          @ slice_from ((- log_limit) div 2) lines
            in concat lines)
      else logs)"

text \<open>
  The message \<open>generate_commit_message\<close> returns, from the stripped output of
  \<open>git config remote.origin.url\<close> and the output of \<open>git log\<close>.
\<close>

definition commit_message ::
  "string \<Rightarrow> string \<Rightarrow> string \<Rightarrow> bool \<Rightarrow> int \<Rightarrow> string \<Rightarrow> string \<Rightarrow> string" where
  "commit_message dependency head roll_to no_log log_limit upstream_url out =
     (let header = roll_header dependency head roll_to out;
          log_section = log_section_head upstream_url head roll_to;
          log_section = (if \<not> no_log \<and> should_show_log upstream_url
                         then log_section @ log_body log_limit out else log_section)
      in header @ log_section)"

definition generate_commit_message ::
  "world \<Rightarrow> string \<Rightarrow> string \<Rightarrow> string \<Rightarrow> string \<Rightarrow> bool \<Rightarrow> int \<Rightarrow> string io" where
  "generate_commit_message w full_dir dependency head roll_to no_log log_limit =
     (let commit_range = head @ ''..'' @ roll_to in
      bind (check_output w [''git'', ''config'', ''remote.origin.url''] (Some full_dir)) (\<lambda>out1.
        let upstream_url = strip out1;
            cmd = [''git'', ''log'', commit_range, ''--date=short'', ''--no-merges'']
        in bind (check_output w (cmd @ [''--format=%ad %ae %s'', ''--'']) (Some full_dir)) (\<lambda>out2.
             ret (commit_message dependency head roll_to no_log log_limit upstream_url out2))))"

definition is_submoduled :: "world \<Rightarrow> bool io" where
  "is_submoduled w =
     bind (gclient w [''root'']) (\<lambda>root. os_isfile w (path_join w root ''.gitmodules''))"

text \<open>
  \<open>get_submodule_rev\<close> builds its command from the name \<open>submodule\<close>, which is neither its
  parameter (\<open>submodule_path\<close>) nor a global of the module: evaluating it raises \<open>NameError\<close>
  before any command runs.
\<close>

definition get_submodule_rev :: "world \<Rightarrow> string \<Rightarrow> string io" where
  "get_submodule_rev w submodule_path =
     bind (raise (NameError ''submodule'')) (\<lambda>submodule.
       bind (check_output w [''git'', ''submodule'', ''status'', submodule] None) (\<lambda>rev.
         ret (drop 1 (hd (split CHR '' '' rev)))))"

text \<open>
  \<open>calculate_roll\<close>. In the branch for submodules the argument of the call is the name
  \<open>submodule_path\<close>, which is not bound in \<open>calculate_roll\<close>: \<open>NameError\<close> again.
\<close>

definition calculate_roll :: "world \<Rightarrow> string \<Rightarrow> string \<Rightarrow> string \<Rightarrow> (string \<times> string) io" where
  "calculate_roll w full_dir dependency roll_to =
     bind (is_submoduled w) (\<lambda>submoduled.
     bind (if submoduled
           then bind (raise (NameError ''submodule_path'')) (\<lambda>submodule_path.
                  get_submodule_rev w submodule_path)
           else gclient w [''getdep'', ''-r'', dependency]) (\<lambda>head.
     if head = [] then raise (Error (dependency @ '' is unpinned.''))
     else
     bind (check_call w [''git'', ''fetch'', ''origin'', ''--quiet''] (Some full_dir)) (\<lambda>_.
     bind (if roll_to = ''origin/HEAD''
           then bind (check_output w [''git'', ''remote'', ''set-head'', ''origin'', ''-a'']
                        (Some full_dir)) (\<lambda>_. ret ())
           else ret ()) (\<lambda>_.
     bind (check_output w [''git'', ''rev-parse'', roll_to] (Some full_dir)) (\<lambda>out.
       ret (head, strip out))))))"

section \<open>The roll plan, finalize and main\<close>

text \<open>
  \<open>rolls\<close> is a Python dict from the dependency to \<open>(head, roll_to, full_dir)\<close>: an
  association list in insertion order, where storing under a key that is present
  replaces the value in place.
\<close>

type_synonym roll = "string \<times> string \<times> string"

fun dict_set :: "string \<Rightarrow> roll \<Rightarrow> (string \<times> roll) list \<Rightarrow> (string \<times> roll) list" where
  "dict_set k v [] = [(k, v)]"
| "dict_set k v ((k', v') # kvs) =
     (if k' = k then (k, v) # kvs else (k', v') # dict_set k v kvs)"

text \<open>The loop of \<open>finalize\<close> over \<open>sorted(rolls.values())\<close>.\<close>

fun checkouts :: "world \<Rightarrow> roll list \<Rightarrow> unit io" where
  "checkouts w [] = ret ()"
| "checkouts w ((unused_head, roll_to, full_dir) # rest) =
     bind (check_call w [''git'', ''checkout'', ''--quiet'', roll_to] (Some full_dir)) (\<lambda>_.
       checkouts w rest)"

definition finalize :: "world \<Rightarrow> string \<Rightarrow> string \<Rightarrow> (string \<times> roll) list \<Rightarrow> unit io" where
  "finalize w commit_msg current_dir rolls =
     bind (checkouts w (sort (map snd rolls))) (\<lambda>_.
     bind (check_call w [''git'', ''add'', ''DEPS''] (Some current_dir)) (\<lambda>_.
     bind (write_temp w commit_msg) (\<lambda>commit_filename.
     bind (check_call w [''git'', ''commit'', ''--quiet'', ''--file'', commit_filename]
             (Some current_dir)) (\<lambda>_.
     os_remove commit_filename))))"

text \<open>The parsed command line (\<open>args\<close> of \<open>main\<close>); \<open>dep_path\<close> has at least one element.\<close>

record args =
  arg_ignore_dirty_tree :: bool
  arg_reviewer :: "string list option"
  arg_bug :: "string option"
  arg_no_log :: bool
  arg_log_limit :: int
  arg_roll_to :: string
  arg_key :: "string list"
  arg_dep_path :: "string list"

text \<open>The directory of a dependency: under the gclient root, else under the current directory.\<close>

definition find_dir :: "world \<Rightarrow> string \<Rightarrow> string \<Rightarrow> string \<Rightarrow> string io" where
  "find_dir w gclient_root current_dir dependency =
     (let full_dir = normpath w (path_join w gclient_root dependency) in
      bind (os_isdir w full_dir) (\<lambda>found.
        if \<not> found
        then (let full_dir = normpath w (path_join w current_dir dependency) in
              bind (os_isdir w full_dir) (\<lambda>found.
                if \<not> found
                then raise (Error (''Directory not found: '' @ dependency @ '' ('' @ full_dir @ '')''))
                else ret full_dir))
        else ret full_dir))"

text \<open>
  One round of the first loop of \<open>main\<close>; \<open>n\<close> is \<open>len(dependencies)\<close> and \<open>target\<close> is
  \<open>args.roll_to\<close>.
\<close>

definition roll_one ::
  "world \<Rightarrow> string \<Rightarrow> string \<Rightarrow> string \<Rightarrow> nat \<Rightarrow> string \<Rightarrow> (string \<times> roll) list
     \<Rightarrow> (string \<times> roll) list io" where
  "roll_one w target gclient_root current_dir n dependency rolls =
     bind (find_dir w gclient_root current_dir dependency) (\<lambda>full_dir.
     bind (calculate_roll w full_dir dependency target) (\<lambda>(head, roll_to).
       if roll_to = head
       then (if n = 1 then raise (AlreadyRolledError ''No revision to roll!'') else ret rolls)
       else ret (dict_set dependency (head, roll_to, full_dir) rolls)))"

fun gather ::
  "world \<Rightarrow> string \<Rightarrow> string \<Rightarrow> string \<Rightarrow> nat \<Rightarrow> string list \<Rightarrow> (string \<times> roll) list
     \<Rightarrow> (string \<times> roll) list io" where
  "gather w target gclient_root current_dir n [] rolls = ret rolls"
| "gather w target gclient_root current_dir n (dependency # rest) rolls =
     bind (roll_one w target gclient_root current_dir n dependency rolls) (\<lambda>rolls.
       gather w target gclient_root current_dir n rest rolls)"

text \<open>The second loop of \<open>main\<close>, over \<open>sorted(rolls.items())\<close>.\<close>

fun messages ::
  "world \<Rightarrow> bool \<Rightarrow> int \<Rightarrow> (string \<times> roll) list \<Rightarrow> string list \<Rightarrow> string list
     \<Rightarrow> (string list \<times> string list) io" where
  "messages w no_log log_limit [] logs setdep_args = ret (logs, setdep_args)"
| "messages w no_log log_limit ((dependency, (head, roll_to, full_dir)) # rest) logs setdep_args =
     bind (generate_commit_message w full_dir dependency head roll_to no_log log_limit) (\<lambda>log.
       messages w no_log log_limit rest (logs @ [log])
         (setdep_args @ [''-r'', dependency @ ''@'' @ roll_to]))"

text \<open>The check of the working tree at the start of the \<open>try\<close> statement of \<open>main\<close>.\<close>

definition check_clean :: "world \<Rightarrow> bool \<Rightarrow> string \<Rightarrow> unit io" where
  "check_clean w ignore_dirty_tree current_dir =
     (if \<not> ignore_dirty_tree
      then bind (is_pristine w current_dir) (\<lambda>pristine.
             if \<not> pristine
             then raise (Error (''Ensure '' @ current_dir
                                  @ '' is clean first (no non-merged commits).''))
             else ret ())
      else ret ())"

text \<open>The body of the \<open>try\<close> statement of \<open>main\<close>.\<close>

definition main_try ::
  "world \<Rightarrow> args \<Rightarrow> string list option \<Rightarrow> string \<Rightarrow> string \<Rightarrow> string list \<Rightarrow> string
     \<Rightarrow> unit io" where
  "main_try w a reviewers gclient_root current_dir dependencies cmdline =
     bind (check_clean w (arg_ignore_dirty_tree a) current_dir) (\<lambda>_.
     bind (gather w (arg_roll_to a) gclient_root current_dir (length dependencies)
             dependencies []) (\<lambda>rolls.
     bind (messages w (arg_no_log a) (arg_log_limit a) (sort rolls) [] []) (\<lambda>(logs, setdep_args).
     bind (gclient w ([''setdep''] @ setdep_args)) (\<lambda>_.
       finalize w (gen_commit_msg logs cmdline reviewers (arg_bug a)) current_dir rolls))))"

text \<open>
  How a run of the script ends: \<open>sys.exit\<close> with the code \<open>main\<close> returns (or with the
  code 2 of \<open>parser.error\<close>), or an exception that nothing catches.
\<close>

datatype outcome = Exit int | Traceback exn

text \<open>The two \<open>except\<close> clauses of \<open>main\<close>.\<close>

fun handler :: "exn \<Rightarrow> outcome" where
  "handler (Error m) = Exit 1"
| "handler (AlreadyRolledError m) = Exit 2"
| "handler CalledProcessError = Exit 1"
| "handler (NameError m) = Traceback (NameError m)"

text \<open>\<open>main\<close>, from the parsed arguments, with the trace of the run.\<close>

definition main :: "world \<Rightarrow> args \<Rightarrow> outcome \<times> event list" where
  "main w a =
     (if length (arg_dep_path a) > 1 \<and> (arg_roll_to a \<noteq> ''origin/HEAD'' \<or> arg_key a \<noteq> [])
      then (Exit 2, [])
      else
        let reviewers = main_reviewers (arg_reviewer a) in
        case gclient w [''root''] [] of
          (Inl e, t) \<Rightarrow> (Traceback e, t)
        | (Inr gclient_root, t) \<Rightarrow>
            let current_dir = getcwd w;
                dependencies = sort (map (\<lambda>d. rstrip_slash (replace [CHR 0x5C] ''/'' d))
                                       (arg_dep_path a));
                cmdline = ''roll-dep '' @ join '' '' dependencies
                            @ concat (map (\<lambda>k. '' --key '' @ k) (arg_key a))
            in case main_try w a reviewers gclient_root current_dir dependencies cmdline t of
                 (Inl e, t') \<Rightarrow> (handler e, t')
               | (Inr _, t') \<Rightarrow> (Exit 0, t'))"

section \<open>A concrete world\<close>

text \<open>
  A world to run the functions in: the gclient root is \<open>/r\<close>, the dependencies \<open>a\<close>,
  \<open>b\<close> and \<open>c\<close> are pinned at \<open>22\<close>, \<open>11\<close> and \<open>cc\<close>, and their remote heads are
  \<open>aa\<close>, \<open>bb\<close> and \<open>cc\<close> (so \<open>c\<close> is already rolled); every command succeeds.
\<close>

definition demo_run :: "event list \<Rightarrow> string list \<Rightarrow> string option \<Rightarrow> int \<times> string" where
  "demo_run t argv cwd =
     (if argv = [''py'', ''gc'', ''root''] then (0, ''/r'' @ [CHR 0x0A])
      else if argv = [''py'', ''gc'', ''getdep'', ''-r'', ''a''] then (0, ''22'')
      else if argv = [''py'', ''gc'', ''getdep'', ''-r'', ''b''] then (0, ''11'')
      else if argv = [''py'', ''gc'', ''getdep'', ''-r'', ''c''] then (0, ''cc'')
      else if argv = [''git'', ''rev-parse'', ''origin/HEAD''] \<and> cwd = Some ''/r/a''
        then (0, ''aa'' @ [CHR 0x0A])
      else if argv = [''git'', ''rev-parse'', ''origin/HEAD''] \<and> cwd = Some ''/r/b''
        then (0, ''bb'' @ [CHR 0x0A])
      else if argv = [''git'', ''rev-parse'', ''origin/HEAD''] \<and> cwd = Some ''/r/c''
        then (0, ''cc'' @ [CHR 0x0A])
      else if argv = [''git'', ''config'', ''remote.origin.url''] \<and> cwd = Some ''/r/a''
        then (0, ''https://github.com/x/a.git'' @ [CHR 0x0A])
      else if argv = [''git'', ''config'', ''remote.origin.url''] \<and> cwd = Some ''/r/b''
        then (0, ''https://chromium.googlesource.com/v8/v8.git'' @ [CHR 0x0A])
      else if take 2 argv = [''git'', ''log'']
        then (0, ''2020-01-02 joe@x.org Fix'' @ [CHR 0x0A])
      else (0, []))"

definition demo :: world where
  "demo = \<lparr>run = demo_run, isdir = (\<lambda>t p. True), isfile = (\<lambda>t p. False), mktemp = (\<lambda>t. ''m''),
     getcwd = ''/r'', sys_executable = ''py'', GCLIENT_PATH = ''gc'',
     path_join = (\<lambda>a b. a @ ''/'' @ b), normpath = (\<lambda>p. p)\<rparr>"

text \<open>The same world with a \<open>.gitmodules\<close> file at the gclient root.\<close>

definition demo_sub :: world where
  "demo_sub = demo\<lparr>isfile := (\<lambda>t p. True)\<rparr>"

text \<open>The same world where \<open>git checkout\<close> fails in \<open>/r/a\<close>.\<close>

definition demo_fail :: world where
  "demo_fail = demo\<lparr>run := (\<lambda>t argv cwd.
     if take 2 argv = [''git'', ''checkout''] \<and> cwd = Some ''/r/a'' then (1, [])
     else demo_run t argv cwd)\<rparr>"

text \<open>The command line \<open>roll-dep --ignore-dirty-tree --no-log\<close> with the given paths.\<close>

definition demo_args :: "string list \<Rightarrow> args" where
  "demo_args paths = \<lparr>arg_ignore_dirty_tree = True, arg_reviewer = None, arg_bug = None,
     arg_no_log = True, arg_log_limit = 100, arg_roll_to = ''origin/HEAD'', arg_key = [],
     arg_dep_path = paths\<rparr>"

section \<open>Observing a trace\<close>

text \<open>
  The events of interest in a trace: the checkouts and the commit of \<open>finalize\<close>.
  \<open>appends Q m\<close> says that the computation \<open>m\<close> only adds events to the trace, and that
  the events it adds satisfy \<open>Q\<close>; an event is \<open>quiet\<close> when it is neither a checkout nor
  a commit. \<open>co_event\<close> is the checkout of one entry of the plan, \<open>co_ok\<close> says that this
  checkout exits with 0 when run after the trace \<open>t\<close>, and \<open>all_ok\<close> that the checkouts of
  a list of entries, run one after another, all do. \<open>after_checkouts\<close> is the part of
  \<open>finalize\<close> behind its loop.
\<close>

definition is_checkout :: "event \<Rightarrow> bool" where
  "is_checkout e \<longleftrightarrow> (\<exists>r d. e = Subprocess [''git'', ''checkout'', ''--quiet'', r] (Some d))"

definition is_commit :: "event \<Rightarrow> bool" where
  "is_commit e \<longleftrightarrow> (\<exists>f cwd. e = Subprocess [''git'', ''commit'', ''--quiet'', ''--file'', f] cwd)"

definition appends :: "(event \<Rightarrow> bool) \<Rightarrow> 'a io \<Rightarrow> bool" where
  "appends Q m \<longleftrightarrow> (\<forall>t. \<exists>es. snd (m t) = t @ es \<and> (\<forall>e \<in> set es. Q e))"

definition quiet :: "event \<Rightarrow> bool" where
  "quiet e \<longleftrightarrow> \<not> is_checkout e \<and> \<not> is_commit e"

definition co_event :: "roll \<Rightarrow> event" where
  "co_event v = Subprocess [''git'', ''checkout'', ''--quiet'', fst (snd v)] (Some (snd (snd v)))"

definition co_ok :: "world \<Rightarrow> event list \<Rightarrow> roll \<Rightarrow> bool" where
  "co_ok w t v \<longleftrightarrow>
     fst (run w t [''git'', ''checkout'', ''--quiet'', fst (snd v)] (Some (snd (snd v)))) = 0"

fun all_ok :: "world \<Rightarrow> event list \<Rightarrow> roll list \<Rightarrow> bool" where
  "all_ok w t [] = True"
| "all_ok w t (v # vs) = (co_ok w t v \<and> all_ok w (t @ [co_event v]) vs)"

definition after_checkouts :: "world \<Rightarrow> string \<Rightarrow> string \<Rightarrow> unit io" where
  "after_checkouts w commit_msg current_dir =
     bind (check_call w [''git'', ''add'', ''DEPS''] (Some current_dir)) (\<lambda>_.
     bind (write_temp w commit_msg) (\<lambda>commit_filename.
     bind (check_call w [''git'', ''commit'', ''--quiet'', ''--file'', commit_filename]
             (Some current_dir)) (\<lambda>_.
     os_remove commit_filename)))"

text \<open>The checkouts of a trace in order, each as the revision and the directory.\<close>

fun checkout_calls :: "event list \<Rightarrow> (string \<times> string) list" where
  "checkout_calls [] = []"
| "checkout_calls (Subprocess [g, c, q, r] (Some d) # es) =
     (if g = ''git'' \<and> c = ''checkout'' \<and> q = ''--quiet''
      then (r, d) # checkout_calls es else checkout_calls es)"
| "checkout_calls (e # es) = checkout_calls es"

text \<open>
  \<open>ends_in_finalize\<close>: whatever the computation does, either it adds quiet events only,
  or it adds quiet events and then is a call of \<open>finalize\<close>.
\<close>

definition ends_in_finalize :: "world \<Rightarrow> string \<Rightarrow> unit io \<Rightarrow> bool" where
  "ends_in_finalize w cd m \<longleftrightarrow>
     (\<forall>t res t'. m t = (res, t') \<longrightarrow>
        (\<exists>es. t' = t @ es \<and> (\<forall>e \<in> set es. quiet e))
      \<or> (\<exists>es msg rolls. (\<forall>e \<in> set es. quiet e)
            \<and> finalize w msg cd rolls (t @ es) = (res, t')))"

section \<open>Lemmas on the string functions\<close>

lemma split_from_nonempty: "split_from sep acc s \<noteq> []"
  by (induction s arbitrary: acc) auto

lemma join_Cons_nonempty: "ys \<noteq> [] \<Longrightarrow> join sep (x # ys) = x @ sep @ join sep ys"
  by (cases ys) simp_all

lemma join_split_from: "join [sep] (split_from sep acc s) = acc @ s"
proof (induction s arbitrary: acc)
  case Nil
  then show ?case by simp
next
  case (Cons c cs)
  then show ?case
    by (simp add: join_Cons_nonempty split_from_nonempty)
qed

lemma split_from_no_sep:
  "sep \<notin> set acc \<Longrightarrow> \<forall>x \<in> set (split_from sep acc s). sep \<notin> set x"
proof (induction s arbitrary: acc)
  case Nil
  then show ?case by simp
next
  case (Cons c cs)
  show ?case
  proof (cases "c = sep")
    case True
    with Cons.prems Cons.IH [of "[]"] show ?thesis by simp
  next
    case False
    with Cons.prems Cons.IH [of "acc @ [c]"] show ?thesis by simp
  qed
qed

lemma add_domains_map:
  "i + k = length rs \<Longrightarrow>
   add_domains k i rs =
     take i rs @ map (\<lambda>r. if CHR ''@'' \<in> set r then r else r @ ''@chromium.org'') (drop i rs)"
proof (induction k arbitrary: i rs)
  case 0
  then show ?case by simp
next
  case (Suc k)
  let ?f = "\<lambda>r. if CHR ''@'' \<in> set r then r else r @ ''@chromium.org''"
  let ?rs' = "if CHR ''@'' \<notin> set (rs ! i) then rs[i := rs ! i @ ''@chromium.org''] else rs"
  from Suc.prems have i: "i < length rs" by simp
  have rs': "?rs' = rs[i := ?f (rs ! i)]" by simp
  have len: "Suc i + k = length ?rs'" using Suc.prems by simp
  have "add_domains (Suc k) i rs = add_domains k (Suc i) ?rs'" by (simp add: Let_def)
  also have "\<dots> = take (Suc i) ?rs' @ map ?f (drop (Suc i) ?rs')"
    by (rule Suc.IH [OF len])
  also have "\<dots> = take i rs @ [?f (rs ! i)] @ map ?f (drop (Suc i) rs)"
    using i unfolding rs' by (simp add: take_Suc_conv_app_nth)
  also have "\<dots> = take i rs @ map ?f (drop i rs)"
    using i by (simp add: Cons_nth_drop_Suc [symmetric])
  finally show ?case .
qed

section \<open>The aggregated commit message\<close>

text \<open>
  Claim C10. When \<open>gen_commit_msg\<close> gets more than one section, the message is the line
  \<open>Rolling N dependencies\<close> (\<open>N\<close> the number of sections), an empty line, the first
  section, and then the other sections and the footer; when it gets exactly one section,
  the message is that section followed by the footer, with no summary line.
\<close>

theorem gen_commit_msg_summary_line:
  "(1 < length logs \<longrightarrow>
      gen_commit_msg logs cmdline reviewers bug =
        ''Rolling '' @ str_nat (length logs) @ '' dependencies'' @ [CHR 0x0A] @ [CHR 0x0A]
        @ hd logs @ [CHR 0x0A, CHR 0x0A] @ join [CHR 0x0A, CHR 0x0A] (tl logs)
        @ gen_commit_msg [] cmdline reviewers bug)
   \<and> gen_commit_msg [l] cmdline reviewers bug = l @ gen_commit_msg [] cmdline reviewers bug"
proof (intro conjI impI)
  assume "1 < length logs"
  then obtain x y ys where logs: "logs = x # y # ys"
    by (cases logs; cases "tl logs") auto
  show "gen_commit_msg logs cmdline reviewers bug =
        ''Rolling '' @ str_nat (length logs) @ '' dependencies'' @ [CHR 0x0A] @ [CHR 0x0A]
        @ hd logs @ [CHR 0x0A, CHR 0x0A] @ join [CHR 0x0A, CHR 0x0A] (tl logs)
        @ gen_commit_msg [] cmdline reviewers bug"
    unfolding logs by (simp add: gen_commit_msg_def)
next
  show "gen_commit_msg [l] cmdline reviewers bug = l @ gen_commit_msg [] cmdline reviewers bug"
    by (simp add: gen_commit_msg_def)
qed

theorem gen_commit_msg_summary_line_witness:
  "1 < length [''A'', ''B''] \<and>
   gen_commit_msg [''A'', ''B''] ''roll-dep a b'' None None =
     ''Rolling 2 dependencies'' @ [CHR 0x0A, CHR 0x0A] @ ''A'' @ [CHR 0x0A, CHR 0x0A] @ ''B''
     @ [CHR 0x0A] @ ''Created with:'' @ [CHR 0x0A] @ ''  roll-dep a b'' @ [CHR 0x0A] \<and>
   gen_commit_msg [''A''] ''roll-dep a'' None None =
     ''A'' @ [CHR 0x0A] @ ''Created with:'' @ [CHR 0x0A] @ ''  roll-dep a'' @ [CHR 0x0A]"
proof -
  have n: "str_nat (Suc (Suc 0)) = ''2''" by code_simp
  have f: "gen_commit_msg [] c None None
             = [CHR 0x0A] @ ''Created with:'' @ [CHR 0x0A] @ ''  '' @ c @ [CHR 0x0A]" for c
    by (simp add: gen_commit_msg_def)
  show ?thesis
    using gen_commit_msg_summary_line [of "[''A'', ''B'']" "''roll-dep a b''" None None "''A''"]
      gen_commit_msg_summary_line [of "[''A'']" "''roll-dep a''" None None "''A''"] n f
    by simp
qed

section \<open>Reviewers\<close>

text \<open>
  Claim C7. The reviewer arguments are flattened by splitting each at its commas (the
  pieces hold no comma and joined by commas give the argument back); a piece without
  \<open>@\<close> gets \<open>@chromium.org\<close> appended and a piece with \<open>@\<close> is kept as it is. For the
  arguments \<open>joe\<close> and \<open>jane@example.com\<close> the trailer of the commit message is
  \<open>R=joe@chromium.org,jane@example.com\<close>.
\<close>

theorem reviewers_default_domain:
  "main_reviewers (Some rs) =
     (if rs = [] then None
      else Some (map (\<lambda>r. if CHR ''@'' \<in> set r then r else r @ ''@chromium.org'')
                   (concat (map (split CHR '','') rs))))
   \<and> (\<forall>r \<in> set rs. join '','' (split CHR '','' r) = r
         \<and> (\<forall>x \<in> set (split CHR '','' r). CHR '','' \<notin> set x))
   \<and> gen_commit_msg logs cmdline (main_reviewers (Some [''joe'', ''jane@example.com''])) None =
       gen_commit_msg logs cmdline None None @ ''R=joe@chromium.org,jane@example.com'' @ [CHR 0x0A]"
proof (intro conjI ballI)
  show "main_reviewers (Some rs) =
     (if rs = [] then None
      else Some (map (\<lambda>r. if CHR ''@'' \<in> set r then r else r @ ''@chromium.org'')
                   (concat (map (split CHR '','') rs))))"
    by (simp add: main_reviewers_def Let_def add_domains_map)
next
  fix r
  show "join '','' (split CHR '','' r) = r"
    by (simp add: split_def join_split_from)
next
  fix r x
  assume "x \<in> set (split CHR '','' r)"
  then show "CHR '','' \<notin> set x"
    unfolding split_def using split_from_no_sep [of "CHR '',''" "[]" r] by simp
next
  have "main_reviewers (Some [''joe'', ''jane@example.com''])
          = Some [''joe@chromium.org'', ''jane@example.com'']"
    by code_simp
  then show "gen_commit_msg logs cmdline (main_reviewers (Some [''joe'', ''jane@example.com''])) None =
       gen_commit_msg logs cmdline None None @ ''R=joe@chromium.org,jane@example.com'' @ [CHR 0x0A]"
    by (simp add: gen_commit_msg_def)
qed

theorem reviewers_default_domain_witness:
  "''joe,jim'' \<in> set [''joe,jim'', ''jane@example.com'', []] \<and>
   ''jim'' \<in> set (split CHR '','' ''joe,jim'') \<and>
   split CHR '','' ''joe,jim'' = [''joe'', ''jim''] \<and>
   main_reviewers (Some [''joe,jim'', ''jane@example.com'', []])
     = Some [''joe@chromium.org'', ''jim@chromium.org'', ''jane@example.com'', ''@chromium.org'']"
proof -
  have s1: "split CHR '','' ''joe,jim'' = [''joe'', ''jim'']" by code_simp
  have s2: "split CHR '','' ''jane@example.com'' = [''jane@example.com'']" by code_simp
  have s3: "split CHR '','' [] = [[]]" by code_simp
  show ?thesis
    using reviewers_default_domain [of "[''joe,jim'', ''jane@example.com'', []]" "[]" "[]"] s1 s2 s3
    by simp
qed

section \<open>The log URL\<close>

lemma rmatch_lits:
  "rmatch ml (lits str) s (i, g) = (if prefix str (drop i s) then [(i + length str, g)] else [])"
proof (induction str arbitrary: i)
  case Nil
  then show ?case by (simp add: lits_def)
next
  case (Cons c cs)
  have l: "lits (c # cs) = Seq (Lit c) (lits cs)" by (simp add: lits_def)
  show ?case
  proof (cases "i < length s")
    case True
    then have d: "drop i s = s ! i # drop (Suc i) s" by (simp add: Cons_nth_drop_Suc)
    show ?thesis unfolding l using True Cons.IH [of "Suc i"] by (simp add: d)
  next
    case False
    then show ?thesis unfolding l by simp
  qed
qed

lemma concat_map_nonempty_iff: "concat (map f xs) \<noteq> [] \<longleftrightarrow> (\<exists>x \<in> set xs. f x \<noteq> [])"
  by (induction xs) auto

lemma googlesource_match_iff:
  "re_match False GOOGLESOURCE url \<longleftrightarrow>
     (\<exists>h rest. url = ''https://'' @ h @ ''.googlesource.com/'' @ rest \<and> CHR ''/'' \<notin> set h)"
    (is "?L \<longleftrightarrow> ?R")
proof -
  let ?p = "\<lambda>c. c \<noteq> CHR ''/''"
  let ?n = "length (takeWhile ?p (drop 8 url))"
  have L: "?L \<longleftrightarrow> prefix ''https://'' url \<and>
             (\<exists>k \<le> ?n. prefix ''.googlesource.com/'' (drop (8 + k) url))"
  proof (cases "prefix ''https://'' url")
    case True
    have a: "rmatch False (lits ''https://'') url (0, []) = [(8, [])]"
      using True by (simp add: rmatch_lits)
    have "rmatch False GOOGLESOURCE url (0, []) =
        concat (map (rmatch False (lits ''.googlesource.com/'') url)
                  (map (\<lambda>k. (8 + k, [])) (rev [0 ..< Suc ?n])))"
      by (simp add: GOOGLESOURCE_def a)
    then have "?L \<longleftrightarrow> (\<exists>k \<in> set [0 ..< Suc ?n].
                 rmatch False (lits ''.googlesource.com/'') url (8 + k, []) \<noteq> [])"
      unfolding re_match_def by (simp add: concat_map_nonempty_iff)
    also have "\<dots> \<longleftrightarrow> (\<exists>k \<le> ?n. prefix ''.googlesource.com/'' (drop (8 + k) url))"
      by (auto simp del: upt_Suc simp add: rmatch_lits less_Suc_eq_le)
    finally show ?thesis using True by simp
  next
    case False
    then show ?thesis
      by (simp add: re_match_def GOOGLESOURCE_def rmatch_lits)
  qed
  show ?thesis
  proof
    assume ?L
    with L obtain k where p: "prefix ''https://'' url" and k: "k \<le> ?n"
      and q: "prefix ''.googlesource.com/'' (drop (8 + k) url)" by blast
    from p obtain u where u: "url = ''https://'' @ u" by (auto simp: prefix_def)
    then have du: "drop 8 url = u" by simp
    from q obtain rest where rest: "drop (8 + k) url = ''.googlesource.com/'' @ rest"
      by (auto simp: prefix_def)
    have "drop (8 + k) url = drop k (drop 8 url)" by (simp add: add.commute)
    with rest du have dk: "drop k u = ''.googlesource.com/'' @ rest" by simp
    let ?h = "take k u"
    have "take k (takeWhile ?p u @ dropWhile ?p u) = take k (takeWhile ?p u)"
      using k du by (simp del: takeWhile_dropWhile_id)
    then have "take k u = take k (takeWhile ?p u)" by simp
    then have "set ?h \<subseteq> set (takeWhile ?p u)" by (metis set_take_subset)
    then have "CHR ''/'' \<notin> set ?h" by (auto dest: set_takeWhileD)
    moreover have "u = ?h @ drop k u" by simp
    then have "url = ''https://'' @ ?h @ ''.googlesource.com/'' @ rest"
      using u dk by simp
    ultimately show ?R by blast
  next
    assume ?R
    then obtain h rest where url: "url = ''https://'' @ h @ ''.googlesource.com/'' @ rest"
      and h: "CHR ''/'' \<notin> set h" by blast
    have d8: "drop 8 url = h @ ''.googlesource.com/'' @ rest" unfolding url by simp
    have "takeWhile ?p (h @ ''.googlesource.com/'' @ rest)
            = h @ takeWhile ?p (''.googlesource.com/'' @ rest)"
      using h by (intro takeWhile_append2) auto
    then have "length h \<le> ?n" unfolding d8 by simp
    moreover have "drop (8 + length h) url = drop (length h) (drop 8 url)"
      by (simp add: add.commute)
    then have "prefix ''.googlesource.com/'' (drop (8 + length h) url)"
      unfolding d8 by simp
    moreover have "prefix ''https://'' url" unfolding url by simp
    ultimately show ?L using L by blast
  qed
qed

lemma rstrip_with_decomp:
  "s = rstrip_with p s @ rev (takeWhile p (rev s))"
proof -
  have "rev (dropWhile p (rev s)) @ rev (takeWhile p (rev s))
          = rev (takeWhile p (rev s) @ dropWhile p (rev s))"
    by (simp only: rev_append)
  also have "\<dots> = rev (rev s)" by (simp only: takeWhile_dropWhile_id)
  finally show ?thesis by (simp add: rstrip_with_def)
qed

lemma rstrip_with_last:
  "rstrip_with p s \<noteq> [] \<Longrightarrow> \<not> p (last (rstrip_with p s))"
  unfolding rstrip_with_def
  by (simp add: last_rev hd_dropWhile)

lemma rstrip_slash_spec:
  "(\<exists>k. url = rstrip_slash url @ replicate k CHR ''/'') \<and> \<not> suffix ''/'' (rstrip_slash url)"
proof
  let ?t = "takeWhile (\<lambda>c. c = CHR ''/'') (rev url)"
  have "\<forall>c \<in> set (rev ?t). c = CHR ''/''" by (auto dest: set_takeWhileD)
  then have "rev ?t = replicate (length (rev ?t)) CHR ''/''"
    by (intro replicate_length_same [symmetric]) 
  moreover have "url = rstrip_slash url @ rev ?t"
    unfolding rstrip_slash_def by (rule rstrip_with_decomp)
  ultimately show "\<exists>k. url = rstrip_slash url @ replicate k CHR ''/''" by metis
next
  show "\<not> suffix ''/'' (rstrip_slash url)"
  proof
    assume "suffix ''/'' (rstrip_slash url)"
    then obtain xs where xs: "rstrip_slash url = xs @ ''/''" by (auto simp: suffix_def)
    then have "rstrip_slash url \<noteq> []" and "last (rstrip_slash url) = CHR ''/''" by simp_all
    with rstrip_with_last [of "\<lambda>c. c = CHR ''/''" url] show False
      by (simp add: rstrip_slash_def)
  qed
qed

text \<open>
  Claim C8. \<open>get_log_url\<close> gives a URL exactly for the two known hosts. For an upstream
  URL of the form \<open>https://h.googlesource.com/...\<close> (no slash in \<open>h\<close>) it is the
  upstream URL followed by \<open>/+log/\<close> and the range of the two 12-character prefixes; for
  one that starts with \<open>https://github.com/\<close> it is the upstream URL without its
  trailing slashes and then without a \<open>.git\<close> suffix, followed by \<open>/compare/\<close> and
  the range; for every other upstream URL the result is \<open>None\<close>.
\<close>

theorem get_log_url_cases:
  "get_log_url url head tot =
     (if (\<exists>h rest. url = ''https://'' @ h @ ''.googlesource.com/'' @ rest \<and> CHR ''/'' \<notin> set h)
      then Some (url @ ''/+log/'' @ take 12 head @ ''..'' @ take 12 tot)
      else if prefix ''https://github.com/'' url
      then Some ((let u = rstrip_slash url
                  in if suffix ''.git'' u then take (length u - 4) u else u)
                 @ ''/compare/'' @ take 12 head @ ''...'' @ take 12 tot)
      else None)
   \<and> (\<exists>k. url = rstrip_slash url @ replicate k CHR ''/'')
   \<and> \<not> suffix ''/'' (rstrip_slash url)"
proof -
  have "get_log_url url head tot =
     (if (\<exists>h rest. url = ''https://'' @ h @ ''.googlesource.com/'' @ rest \<and> CHR ''/'' \<notin> set h)
      then Some (url @ ''/+log/'' @ take 12 head @ ''..'' @ take 12 tot)
      else if prefix ''https://github.com/'' url
      then Some ((let u = rstrip_slash url
                  in if suffix ''.git'' u then take (length u - 4) u else u)
                 @ ''/compare/'' @ take 12 head @ ''...'' @ take 12 tot)
      else None)"
    unfolding googlesource_match_iff [symmetric] get_log_url_def
    by (simp add: Let_def slice_to_def)
  with rstrip_slash_spec [of url] show ?thesis by blast
qed

theorem get_log_url_cases_witness:
  "get_log_url ''https://chromium.googlesource.com/foo'' ''0123456789abcdef'' ''fedcba9876543210''
     = Some ''https://chromium.googlesource.com/foo/+log/0123456789ab..fedcba987654''
   \<and> get_log_url ''https://github.com/foo/bar.git/'' ''0123456789abcdef'' ''fedcba9876543210''
     = Some ''https://github.com/foo/bar/compare/0123456789ab...fedcba987654''
   \<and> get_log_url ''https://example.com/foo'' ''0123456789abcdef'' ''fedcba9876543210'' = None"
proof -
  have "\<exists>h rest. ''https://chromium.googlesource.com/foo''
              = ''https://'' @ h @ ''.googlesource.com/'' @ rest \<and> CHR ''/'' \<notin> set h"
    by (rule exI [of _ "''chromium''"], rule exI [of _ "''foo''"]) simp
  then have g: "re_match False GOOGLESOURCE ''https://chromium.googlesource.com/foo''"
    by (simp only: googlesource_match_iff)
  have n1: "\<not> re_match False GOOGLESOURCE ''https://github.com/foo/bar.git/''" by code_simp
  have n2: "\<not> re_match False GOOGLESOURCE ''https://example.com/foo''" by code_simp
  have r: "rstrip_slash ''https://github.com/foo/bar.git/'' = ''https://github.com/foo/bar.git''"
    by code_simp
  have sf: "suffix ''.git'' ''https://github.com/foo/bar.git''" by code_simp
  show ?thesis
    using get_log_url_cases [of "''https://chromium.googlesource.com/foo''" "''0123456789abcdef''"
                                "''fedcba9876543210''"]
      get_log_url_cases [of "''https://github.com/foo/bar.git/''" "''0123456789abcdef''"
                                "''fedcba9876543210''"]
      get_log_url_cases [of "''https://example.com/foo''" "''0123456789abcdef''"
                                "''fedcba9876543210''"]
      g n1 n2 r sf
    unfolding googlesource_match_iff [symmetric]
    by (simp add: Let_def)
qed

section \<open>The log body and its limit\<close>

lemma splitlines_from_breakfree:
  "\<not> keep \<Longrightarrow> \<forall>c \<in> set acc. \<not> is_linebreak c \<Longrightarrow>
   \<forall>l \<in> set (splitlines_from keep acc s). \<forall>c \<in> set l. \<not> is_linebreak c"
proof (induction keep acc s rule: splitlines_from.induct)
  case (1 keep acc)
  then show ?case by simp
next
  case (2 keep acc c)
  then show ?case by simp
next
  case (3 keep acc c d cs)
  note nk = \<open>\<not> keep\<close>
  note acc = \<open>\<forall>c \<in> set acc. \<not> is_linebreak c\<close>
  show ?case
  proof (cases "c = CHR 0x0D \<and> d = CHR 0x0A")
    case True
    from "3.IH"(1) [OF True nk] have "\<forall>l \<in> set (splitlines_from keep [] cs). \<forall>c \<in> set l. \<not> is_linebreak c"
      by simp
    with True nk acc show ?thesis by auto
  next
    case nocr: False
    show ?thesis
    proof (cases "is_linebreak c")
      case True
      from "3.IH"(2) [OF nocr True nk]
      have "\<forall>l \<in> set (splitlines_from keep [] (d # cs)). \<forall>c \<in> set l. \<not> is_linebreak c"
        by simp
      with nocr True nk acc show ?thesis by auto
    next
      case False
      with acc have "\<forall>c \<in> set (acc @ [c]). \<not> is_linebreak c" by simp
      from "3.IH"(3) [OF nocr False nk this] nocr False show ?thesis by auto
    qed
  qed
qed

lemma splitlines_breakfree:
  "l \<in> set (splitlines False s) \<Longrightarrow> c \<in> set l \<Longrightarrow> \<not> is_linebreak c"
  using splitlines_from_breakfree [of False "[]" s] by (simp add: splitlines_def)

lemma nl_linebreak: "is_linebreak (CHR 0x0A)"
  by (simp add: is_linebreak_def)

lemma cr_linebreak: "is_linebreak (CHR 0x0D)"
  by (simp add: is_linebreak_def)

lemma splitlines_from_line:
  "\<forall>c \<in> set l. \<not> is_linebreak c \<Longrightarrow>
   splitlines_from True acc (l @ CHR 0x0A # rest)
     = (acc @ l @ [CHR 0x0A]) # splitlines_from True [] rest"
proof (induction l arbitrary: acc)
  case Nil
  show ?case by (cases rest) (simp_all add: nl_linebreak)
next
  case (Cons c l)
  from Cons.prems have c: "\<not> is_linebreak c" and l: "\<forall>c \<in> set l. \<not> is_linebreak c"
    by simp_all
  from c cr_linebreak have ncr: "c \<noteq> CHR 0x0D" by auto
  obtain d ds where ds: "l @ CHR 0x0A # rest = d # ds" by (cases "l @ CHR 0x0A # rest") auto
  have "splitlines_from True acc ((c # l) @ CHR 0x0A # rest)
          = splitlines_from True acc (c # d # ds)" using ds by simp
  also have "\<dots> = splitlines_from True (acc @ [c]) (d # ds)" using c ncr by simp
  also have "\<dots> = splitlines_from True (acc @ [c]) (l @ CHR 0x0A # rest)" using ds by simp
  also have "\<dots> = ((acc @ [c]) @ l @ [CHR 0x0A]) # splitlines_from True [] rest"
    by (rule Cons.IH [OF l])
  finally show ?case by simp
qed

lemma splitlines_join:
  "ls \<noteq> [] \<Longrightarrow> \<forall>l \<in> set ls. \<forall>c \<in> set l. \<not> is_linebreak c \<Longrightarrow>
   splitlines True (join [CHR 0x0A] ls @ [CHR 0x0A]) = map (\<lambda>l. l @ [CHR 0x0A]) ls"
proof (induction ls)
  case Nil
  then show ?case by simp
next
  case (Cons x ls)
  from Cons.prems have x: "\<forall>c \<in> set x. \<not> is_linebreak c" by simp
  show ?case
  proof (cases "ls = []")
    case True
    then show ?thesis
      using splitlines_from_line [OF x, of "[]" "[]"] by (simp add: splitlines_def)
  next
    case False
    from Cons.prems have ls: "\<forall>l \<in> set ls. \<forall>c \<in> set l. \<not> is_linebreak c" by simp
    have "splitlines True (join [CHR 0x0A] (x # ls) @ [CHR 0x0A])
            = splitlines_from True [] (x @ CHR 0x0A # (join [CHR 0x0A] ls @ [CHR 0x0A]))"
      using False by (simp add: splitlines_def join_Cons_nonempty)
    also have "\<dots> = (x @ [CHR 0x0A]) # splitlines True (join [CHR 0x0A] ls @ [CHR 0x0A])"
      using splitlines_from_line [OF x, of "[]"] by (simp add: splitlines_def)
    also have "splitlines True (join [CHR 0x0A] ls @ [CHR 0x0A]) = map (\<lambda>l. l @ [CHR 0x0A]) ls"
      using Cons.IH [OF False ls] .
    finally show ?thesis by simp
  qed
qed

lemma cleaned_lines_breakfree:
  "l \<in> set (cleaned_lines out) \<Longrightarrow> c \<in> set l \<Longrightarrow> \<not> is_linebreak c"
  unfolding cleaned_lines_def log_lines_def using splitlines_breakfree by auto

lemma half_up: "(1::int) \<le> N \<Longrightarrow> (- N) div 2 < 0 \<and> - ((- N) div 2) = N - N div 2"
  by presburger

text \<open>
  Claim C1. For a limit \<open>N\<close> of at least 1 and a filtered log of \<open>L\<close> entries: when
  \<open>L > N\<close> the body is the first \<open>N div 2\<close> entries, the line \<open>(...)\<close>, and the last
  \<open>N - N div 2\<close> entries, which are \<open>N\<close> entries together; when \<open>L \<le> N\<close> the body is
  the whole filtered log, each entry on its line, with no \<open>(...)\<close> line added.
\<close>

theorem log_body_trimmed:
  assumes "1 \<le> N"
  shows "(N < int (length (cleaned_lines out)) \<longrightarrow>
           log_body N out =
             concat (map (\<lambda>l. l @ [CHR 0x0A]) (take (nat (N div 2)) (cleaned_lines out)))
             @ ''(...)'' @ [CHR 0x0A]
             @ concat (map (\<lambda>l. l @ [CHR 0x0A])
                 (drop (length (cleaned_lines out) - nat (N - N div 2)) (cleaned_lines out)))
           \<and> length (take (nat (N div 2)) (cleaned_lines out))
             + length (drop (length (cleaned_lines out) - nat (N - N div 2)) (cleaned_lines out))
             = nat N)
       \<and> (int (length (cleaned_lines out)) \<le> N \<longrightarrow>
           log_body N out = join [CHR 0x0A] (cleaned_lines out) @ [CHR 0x0A])"
proof (intro conjI impI)
  assume big: "N < int (length (cleaned_lines out))"
  let ?cl = "cleaned_lines out"
  let ?f = "\<lambda>l. l @ [CHR 0x0A]"
  from big assms have ne: "?cl \<noteq> []" by auto
  have sl: "splitlines True (join [CHR 0x0A] ?cl @ [CHR 0x0A]) = map ?f ?cl"
    using splitlines_join [OF ne] cleaned_lines_breakfree by blast
  from assms have h0: "\<not> N div 2 < 0" by simp
  from half_up [OF assms] have h1: "(- N) div 2 < 0" and h2: "- ((- N) div 2) = N - N div 2"
    by simp_all
  have "log_body N out =
          concat (slice_to (N div 2) (map ?f ?cl) @ [''(...)'' @ [CHR 0x0A]]
                    @ slice_from ((- N) div 2) (map ?f ?cl))"
    using big by (simp add: log_body_def Let_def sl)
  also have "slice_to (N div 2) (map ?f ?cl) = map ?f (take (nat (N div 2)) ?cl)"
    using h0 by (simp add: slice_to_def take_map)
  also have "slice_from ((- N) div 2) (map ?f ?cl)
               = map ?f (drop (length ?cl - nat (N - N div 2)) ?cl)"
    using h1 h2 by (simp add: slice_from_def drop_map)
  finally show "log_body N out =
             concat (map ?f (take (nat (N div 2)) ?cl)) @ ''(...)'' @ [CHR 0x0A]
             @ concat (map ?f (drop (length ?cl - nat (N - N div 2)) ?cl))"
    by simp
  show "length (take (nat (N div 2)) ?cl)
          + length (drop (length ?cl - nat (N - N div 2)) ?cl) = nat N"
    using big assms by simp
next
  assume "int (length (cleaned_lines out)) \<le> N"
  then show "log_body N out = join [CHR 0x0A] (cleaned_lines out) @ [CHR 0x0A]"
    by (simp add: log_body_def Let_def)
qed

theorem log_body_trimmed_witness:
  "(1::int) \<le> 3 \<and>
   3 < int (length (cleaned_lines ''a\<newline>b\<newline>c\<newline>d\<newline>e\<newline>'')) \<and>
   log_body 3 ''a\<newline>b\<newline>c\<newline>d\<newline>e\<newline>'' = ''a\<newline>(...)\<newline>d\<newline>e\<newline>'' \<and>
   int (length (cleaned_lines ''a\<newline>b\<newline>c\<newline>d\<newline>e\<newline>'')) \<le> 5 \<and>
   log_body 5 ''a\<newline>b\<newline>c\<newline>d\<newline>e\<newline>'' = ''a\<newline>b\<newline>c\<newline>d\<newline>e\<newline>''"
proof -
  have cl: "cleaned_lines ''a\<newline>b\<newline>c\<newline>d\<newline>e\<newline>'' = [''a'', ''b'', ''c'', ''d'', ''e'']"
    by code_simp
  have h: "(1::int) \<le> 3" "(1::int) \<le> 5" by simp_all
  have a: "nat (3 div 2) = Suc 0" "5 - nat (3 - 3 div 2) = Suc (Suc (Suc 0))" by simp_all
  show ?thesis
    using log_body_trimmed [OF h(1), of "''a\<newline>b\<newline>c\<newline>d\<newline>e\<newline>''"]
      log_body_trimmed [OF h(2), of "''a\<newline>b\<newline>c\<newline>d\<newline>e\<newline>''"]
    unfolding cl by (simp add: a)
qed

section \<open>The header of a roll\<close>









section \<open>The log section\<close>

lemma get_log_url_nonempty: "get_log_url url head tot = Some u \<Longrightarrow> u \<noteq> []"
  by (auto simp: get_log_url_def Let_def split: if_splits)

lemma replace_from_nonempty:
  "new \<noteq> [] \<Longrightarrow> s \<noteq> [] \<Longrightarrow> replace_from old new 0 s \<noteq> []"
  by (cases s) auto

lemma log_section_head_eq:
  "log_section_head url head roll_to =
     replace (head @ ''..'' @ roll_to) (take 9 head @ ''..'' @ take 9 roll_to)
       ((case get_log_url url head roll_to of None \<Rightarrow> []
         | Some log_url \<Rightarrow> log_url @ [CHR 0x0A, CHR 0x0A])
        @ ''$ git log '' @ head @ ''..'' @ roll_to @ '' --date=short --no-merges --format=''
        @ [CHR 0x27] @ ''%ad %ae %s'' @ [CHR 0x27, CHR 0x0A])"
proof (cases "get_log_url url head roll_to")
  case None
  then show ?thesis by (simp add: log_section_head_def Let_def)
next
  case (Some u)
  with get_log_url_nonempty [OF Some] show ?thesis
    by (simp add: log_section_head_def Let_def)
qed

lemma log_section_head_nonempty: "log_section_head url head roll_to \<noteq> []"
  unfolding log_section_head_eq replace_def
  by (simp add: replace_from_nonempty)

text \<open>
  Claim C2, amended. After the header the message always has the URL of the log (when
  there is one) and the \<open>git log\<close> command line, with the range shortened to the
  9-character prefixes; this part is never empty. The filtered log body follows exactly
  when \<open>--no-log\<close> is not set and the upstream URL neither ends with \<open>/v8/v8.git\<close> nor
  contains \<open>webrtc\<close>; for such an upstream URL the body is left out whatever the flag.
  The claim as stated, that with the flag set no log section is appended, fails: the
  counterexample below is a message with the flag set.
\<close>

theorem log_section_shown:
  "commit_message dep head roll_to no_log limit url out =
     roll_header dep head roll_to out
     @ replace (head @ ''..'' @ roll_to) (take 9 head @ ''..'' @ take 9 roll_to)
         ((case get_log_url url head roll_to of None \<Rightarrow> []
           | Some log_url \<Rightarrow> log_url @ [CHR 0x0A, CHR 0x0A])
          @ ''$ git log '' @ head @ ''..'' @ roll_to @ '' --date=short --no-merges --format=''
          @ [CHR 0x27] @ ''%ad %ae %s'' @ [CHR 0x27, CHR 0x0A])
     @ (if \<not> no_log \<and> \<not> suffix ''/v8/v8.git'' url \<and> \<not> sublist ''webrtc'' url
        then log_body limit out else [])
   \<and> log_section_head url head roll_to \<noteq> []
   \<and> commit_message dep head roll_to no_log limit
        ''https://chromium.googlesource.com/v8/v8.git'' out
      = roll_header dep head roll_to out
        @ log_section_head ''https://chromium.googlesource.com/v8/v8.git'' head roll_to"
proof (intro conjI)
  show "commit_message dep head roll_to no_log limit url out =
     roll_header dep head roll_to out
     @ replace (head @ ''..'' @ roll_to) (take 9 head @ ''..'' @ take 9 roll_to)
         ((case get_log_url url head roll_to of None \<Rightarrow> []
           | Some log_url \<Rightarrow> log_url @ [CHR 0x0A, CHR 0x0A])
          @ ''$ git log '' @ head @ ''..'' @ roll_to @ '' --date=short --no-merges --format=''
          @ [CHR 0x27] @ ''%ad %ae %s'' @ [CHR 0x27, CHR 0x0A])
     @ (if \<not> no_log \<and> \<not> suffix ''/v8/v8.git'' url \<and> \<not> sublist ''webrtc'' url
        then log_body limit out else [])"
    unfolding log_section_head_eq [symmetric]
    by (simp add: commit_message_def Let_def should_show_log_def)
  show "log_section_head url head roll_to \<noteq> []" by (rule log_section_head_nonempty)
  have "suffix ''/v8/v8.git'' ''https://chromium.googlesource.com/v8/v8.git''" by code_simp
  then show "commit_message dep head roll_to no_log limit
        ''https://chromium.googlesource.com/v8/v8.git'' out
      = roll_header dep head roll_to out
        @ log_section_head ''https://chromium.googlesource.com/v8/v8.git'' head roll_to"
    by (simp add: commit_message_def Let_def should_show_log_def)
qed

theorem log_section_no_log_counterexample:
  "fst (generate_commit_message demo ''/r/a'' ''a'' ''22'' ''aa'' True 100 [])
     = Inr (''Roll a/ 22..aa (1 commit)'' @ [CHR 0x0A, CHR 0x0A]
            @ ''https://github.com/x/a/compare/22...aa'' @ [CHR 0x0A, CHR 0x0A]
            @ ''$ git log 22..aa --date=short --no-merges --format='' @ [CHR 0x27]
            @ ''%ad %ae %s'' @ [CHR 0x27, CHR 0x0A])
   \<and> fst (generate_commit_message demo ''/r/a'' ''a'' ''22'' ''aa'' True 100 [])
     \<noteq> Inr (''Roll a/ 22..aa (1 commit)'' @ [CHR 0x0A, CHR 0x0A])"
  by code_simp

theorem log_section_shown_witness:
  "fst (generate_commit_message demo ''/r/a'' ''a'' ''22'' ''aa'' False 100 [])
     = Inr (commit_message ''a'' ''22'' ''aa'' False 100 ''https://github.com/x/a.git''
              (''2020-01-02 joe@x.org Fix'' @ [CHR 0x0A]))
   \<and> commit_message ''a'' ''22'' ''aa'' False 100 ''https://github.com/x/a.git''
        (''2020-01-02 joe@x.org Fix'' @ [CHR 0x0A])
     = ''Roll a/ 22..aa (1 commit)'' @ [CHR 0x0A, CHR 0x0A]
       @ ''https://github.com/x/a/compare/22...aa'' @ [CHR 0x0A, CHR 0x0A]
       @ ''$ git log 22..aa --date=short --no-merges --format='' @ [CHR 0x27]
       @ ''%ad %ae %s'' @ [CHR 0x27, CHR 0x0A]
       @ ''2020-01-02 joe Fix'' @ [CHR 0x0A]"
proof -
  have g: "fst (generate_commit_message demo ''/r/a'' ''a'' ''22'' ''aa'' False 100 [])
     = Inr (commit_message ''a'' ''22'' ''aa'' False 100 ''https://github.com/x/a.git''
              (''2020-01-02 joe@x.org Fix'' @ [CHR 0x0A]))"
    by code_simp
  have h: "roll_header ''a'' ''22'' ''aa'' (''2020-01-02 joe@x.org Fix'' @ [CHR 0x0A])
             = ''Roll a/ 22..aa (1 commit)'' @ [CHR 0x0A, CHR 0x0A]"
    by code_simp
  have u: "get_log_url ''https://github.com/x/a.git'' ''22'' ''aa''
             = Some ''https://github.com/x/a/compare/22...aa''"
    by code_simp
  have r: "replace (''22'' @ ''..'' @ ''aa'') (take 9 ''22'' @ ''..'' @ take 9 ''aa'') s
             = replace ''22..aa'' ''22..aa'' s" for s
    by simp
  have r2: "replace ''22..aa'' ''22..aa''
              (''https://github.com/x/a/compare/22...aa'' @ [CHR 0x0A, CHR 0x0A]
               @ ''$ git log '' @ ''22'' @ ''..'' @ ''aa''
               @ '' --date=short --no-merges --format='' @ [CHR 0x27] @ ''%ad %ae %s''
               @ [CHR 0x27, CHR 0x0A])
            = ''https://github.com/x/a/compare/22...aa'' @ [CHR 0x0A, CHR 0x0A]
              @ ''$ git log 22..aa --date=short --no-merges --format='' @ [CHR 0x27]
              @ ''%ad %ae %s'' @ [CHR 0x27, CHR 0x0A]"
    by code_simp
  have s1: "\<not> suffix ''/v8/v8.git'' ''https://github.com/x/a.git''" by code_simp
  have s2: "\<not> sublist ''webrtc'' ''https://github.com/x/a.git''" by code_simp
  have b: "log_body 100 (''2020-01-02 joe@x.org Fix'' @ [CHR 0x0A]) = ''2020-01-02 joe Fix'' @ [CHR 0x0A]"
    by code_simp
  have "commit_message ''a'' ''22'' ''aa'' False 100 ''https://github.com/x/a.git''
        (''2020-01-02 joe@x.org Fix'' @ [CHR 0x0A])
     = ''Roll a/ 22..aa (1 commit)'' @ [CHR 0x0A, CHR 0x0A]
       @ ''https://github.com/x/a/compare/22...aa'' @ [CHR 0x0A, CHR 0x0A]
       @ ''$ git log 22..aa --date=short --no-merges --format='' @ [CHR 0x27]
       @ ''%ad %ae %s'' @ [CHR 0x27, CHR 0x0A]
       @ ''2020-01-02 joe Fix'' @ [CHR 0x0A]"
    using log_section_shown [of "''a''" "''22''" "''aa''" False 100 "''https://github.com/x/a.git''"
        "''2020-01-02 joe@x.org Fix'' @ [CHR 0x0A]", THEN conjunct1]
    unfolding h u r option.case using s1 s2 b r2 by simp
  with g show ?thesis by simp
qed

section \<open>Lemmas on traces\<close>

lemma bind_Inl: "m t = (Inl e, t') \<Longrightarrow> bind m f t = (Inl e, t')"
  by (simp add: bind_def)

lemma bind_Inr: "m t = (Inr x, t') \<Longrightarrow> bind m f t = f x t'"
  by (simp add: bind_def)

lemma bind_ret: "bind (ret x) f = f x"
  by (simp add: bind_def ret_def)

lemma bind_raise: "bind (raise e) f = raise e"
  by (simp add: bind_def raise_def)

lemma appends_ret: "appends Q (ret x)"
  by (simp add: appends_def ret_def)

lemma appends_raise: "appends Q (raise e)"
  by (simp add: appends_def raise_def)

lemma appends_bind:
  assumes "appends Q m" and "\<And>x. appends Q (f x)"
  shows "appends Q (bind m f)"
  unfolding appends_def
proof
  fix t
  from assms(1) obtain es where es: "snd (m t) = t @ es" "\<forall>e \<in> set es. Q e"
    unfolding appends_def by blast
  obtain r t' where mt: "m t = (r, t')" by (cases "m t")
  with es have t': "t' = t @ es" by simp
  show "\<exists>es. snd (bind m f t) = t @ es \<and> (\<forall>e \<in> set es. Q e)"
  proof (cases r)
    case (Inl e)
    with mt have "bind m f t = (Inl e, t')" by (simp add: bind_Inl)
    with t' es show ?thesis by auto
  next
    case (Inr x)
    with mt have b: "bind m f t = f x t'" by (simp add: bind_Inr)
    from assms(2) [of x] obtain es2 where "snd (f x t') = t' @ es2" "\<forall>e \<in> set es2. Q e"
      unfolding appends_def by blast
    with b t' es have "snd (bind m f t) = t @ (es @ es2) \<and> (\<forall>e \<in> set (es @ es2). Q e)"
      by auto
    then show ?thesis by blast
  qed
qed

lemma appends_if:
  "appends Q m \<Longrightarrow> appends Q n \<Longrightarrow> appends Q (if b then m else n)"
  by simp

lemma appends_check_output:
  "Q (Subprocess argv cwd) \<Longrightarrow> appends Q (check_output w argv cwd)"
  by (auto simp: appends_def check_output_def split: prod.splits)

lemma appends_check_call:
  "Q (Subprocess argv cwd) \<Longrightarrow> appends Q (check_call w argv cwd)"
  by (auto simp: appends_def check_call_def split: prod.splits)

lemma appends_os_isdir: "appends Q (os_isdir w p)"
  by (simp add: appends_def os_isdir_def)

lemma appends_os_isfile: "appends Q (os_isfile w p)"
  by (simp add: appends_def os_isfile_def)

lemma quiet_gclient: "c \<noteq> ''--quiet'' \<Longrightarrow> quiet (Subprocess (a # b # c # rest) None)"
  by (simp add: quiet_def is_checkout_def is_commit_def)

lemma appends_gclient:
  "args \<noteq> [] \<Longrightarrow> hd args \<noteq> ''--quiet'' \<Longrightarrow> appends quiet (gclient w args)"
  unfolding gclient_def
  by (cases args) (auto intro!: appends_bind appends_check_output appends_ret quiet_gclient)

lemma quiet_git:
  "c \<noteq> ''checkout'' \<Longrightarrow> c \<noteq> ''commit'' \<Longrightarrow> quiet (Subprocess (''git'' # c # rest) cwd)"
  by (simp add: quiet_def is_checkout_def is_commit_def)

lemma appends_is_pristine: "appends quiet (is_pristine w root)"
  unfolding is_pristine_def Let_def
  by (intro appends_bind appends_check_output appends_ret appends_if) (simp_all add: quiet_git)

lemma appends_generate_commit_message:
  "appends quiet (generate_commit_message w full_dir dep head roll_to no_log limit)"
  unfolding generate_commit_message_def Let_def
  by (intro appends_bind appends_check_output appends_ret) (simp_all add: quiet_git)

lemma appends_is_submoduled: "appends quiet (is_submoduled w)"
  unfolding is_submoduled_def
  by (intro appends_bind appends_gclient appends_os_isfile) simp_all

lemma appends_get_submodule_rev: "appends quiet (get_submodule_rev w p)"
  unfolding get_submodule_rev_def by (simp add: bind_raise appends_raise)

lemma appends_calculate_roll: "appends quiet (calculate_roll w full_dir dep target)"
  unfolding calculate_roll_def
  by (intro appends_bind appends_if appends_is_submoduled appends_gclient appends_raise
        appends_get_submodule_rev appends_check_call appends_check_output appends_ret quiet_git)
     simp_all

lemma appends_find_dir: "appends quiet (find_dir w root cd dep)"
  unfolding find_dir_def Let_def
  by (intro appends_bind appends_if appends_os_isdir appends_raise appends_ret)

lemma appends_roll_one: "appends quiet (roll_one w target root cd n dep rolls)"
  unfolding roll_one_def
  by (auto intro!: appends_bind appends_find_dir appends_calculate_roll appends_raise appends_ret)

lemma appends_gather: "appends quiet (gather w target root cd n deps rolls)"
  by (induction deps arbitrary: rolls) (auto intro!: appends_ret appends_bind appends_roll_one)

lemma appends_messages: "appends quiet (messages w no_log limit items logs sa)"
proof (induction items arbitrary: logs sa)
  case Nil
  then show ?case by (simp add: appends_ret)
next
  case (Cons it items)
  obtain dep head roll_to full_dir where "it = (dep, head, roll_to, full_dir)"
    by (cases it) auto
  with Cons show ?case
    by (auto intro!: appends_bind appends_generate_commit_message)
qed

lemma checkouts_Cons:
  "checkouts w (v # vs) t =
     (if co_ok w t v then checkouts w vs (t @ [co_event v])
      else (Inl CalledProcessError, t @ [co_event v]))"
  by (cases v) (auto simp: bind_def check_call_def co_ok_def co_event_def split: prod.splits)

lemma checkouts_trace:
  "checkouts w vs t = (res, t') \<Longrightarrow>
     (res = Inr () \<and> t' = t @ map co_event vs \<and> all_ok w t vs)
   \<or> (res = Inl CalledProcessError \<and>
        (\<exists>ok v rest. vs = ok @ v # rest \<and> all_ok w t ok
           \<and> \<not> co_ok w (t @ map co_event ok) v \<and> t' = t @ map co_event ok @ [co_event v]))"
proof (induction vs arbitrary: t)
  case Nil
  then show ?case by (simp add: ret_def)
next
  case (Cons v vs)
  show ?case
  proof (cases "co_ok w t v")
    case False
    with Cons.prems have "res = Inl CalledProcessError" "t' = t @ [co_event v]"
      by (simp_all add: checkouts_Cons)
    with False have "v # vs = [] @ v # vs \<and> all_ok w t [] \<and> \<not> co_ok w (t @ map co_event []) v
        \<and> t' = t @ map co_event [] @ [co_event v]" by simp
    with \<open>res = Inl CalledProcessError\<close> show ?thesis by blast
  next
    case True
    with Cons.prems have "checkouts w vs (t @ [co_event v]) = (res, t')"
      by (simp add: checkouts_Cons)
    from Cons.IH [OF this] show ?thesis
    proof
      assume "res = Inr () \<and> t' = (t @ [co_event v]) @ map co_event vs
                \<and> all_ok w (t @ [co_event v]) vs"
      with True show ?thesis by simp
    next
      assume "res = Inl CalledProcessError \<and>
        (\<exists>ok u rest. vs = ok @ u # rest \<and> all_ok w (t @ [co_event v]) ok
           \<and> \<not> co_ok w ((t @ [co_event v]) @ map co_event ok) u
           \<and> t' = (t @ [co_event v]) @ map co_event ok @ [co_event u])"
      then obtain ok u rest where r: "res = Inl CalledProcessError"
        and vs: "vs = ok @ u # rest" and ok: "all_ok w (t @ [co_event v]) ok"
        and u: "\<not> co_ok w ((t @ [co_event v]) @ map co_event ok) u"
        and t': "t' = (t @ [co_event v]) @ map co_event ok @ [co_event u]" by blast
      have "v # vs = (v # ok) @ u # rest \<and> all_ok w t (v # ok)
          \<and> \<not> co_ok w (t @ map co_event (v # ok)) u
          \<and> t' = t @ map co_event (v # ok) @ [co_event u]"
        using vs ok u t' True by simp
      with r show ?thesis by blast
    qed
  qed
qed

lemma all_ok_event:
  "all_ok w t vs \<Longrightarrow>
   map co_event vs = pre @ Subprocess [''git'', ''checkout'', ''--quiet'', r] (Some d) # post \<Longrightarrow>
   fst (run w (t @ pre) [''git'', ''checkout'', ''--quiet'', r] (Some d)) = 0"
proof (induction vs arbitrary: t pre)
  case Nil
  then show ?case by simp
next
  case (Cons v vs)
  show ?case
  proof (cases pre)
    case Nil
    with Cons.prems show ?thesis by (simp add: co_event_def co_ok_def)
  next
    case (Cons p ps)
    with Cons.prems(2) have p: "p = co_event v"
      and m: "map co_event vs = ps @ Subprocess [''git'', ''checkout'', ''--quiet'', r] (Some d) # post"
      by simp_all
    from Cons.prems(1) have "all_ok w (t @ [co_event v]) vs" by simp
    from Cons.IH [OF this m] p Cons show ?thesis by simp
  qed
qed

lemma split_in_second:
  "xs @ ys = pre @ c # post \<Longrightarrow> c \<notin> set xs \<Longrightarrow> \<exists>pre2. pre = xs @ pre2 \<and> ys = pre2 @ c # post"
proof (induction xs arbitrary: pre)
  case Nil
  then show ?case by simp
next
  case (Cons x xs)
  show ?case
  proof (cases pre)
    case Nil
    with Cons.prems show ?thesis by simp
  next
    case (Cons p ps)
    with Cons.prems have "xs @ ys = ps @ c # post" "c \<notin> set xs" "x = p" by simp_all
    with Cons.IH [of ps] Cons show ?thesis by simp
  qed
qed

lemma split_in_first:
  "xs @ ys = pre @ c # post \<Longrightarrow> c \<notin> set ys \<Longrightarrow> \<exists>post2. xs = pre @ c # post2 \<and> post = post2 @ ys"
proof (induction xs arbitrary: pre)
  case Nil
  then have "c \<in> set ys" by simp
  with Nil show ?case by simp
next
  case (Cons x xs)
  show ?case
  proof (cases pre)
    case Nil
    with Cons.prems show ?thesis by simp
  next
    case (Cons p ps)
    with Cons.prems have "xs @ ys = ps @ c # post" "x = p" by simp_all
    with Cons.IH [of ps] Cons.prems(2) Cons show ?thesis by simp
  qed
qed

lemma co_event_not_commit: "\<not> is_commit (co_event v)"
  by (simp add: is_commit_def co_event_def)

lemma co_event_is_checkout: "is_checkout (co_event v)"
  by (simp add: is_checkout_def co_event_def)

lemma appends_after_checkouts:
  "appends (\<lambda>e. \<not> is_checkout e) (after_checkouts w msg cd)"
  unfolding after_checkouts_def
  by (intro appends_bind appends_check_call)
     (auto simp: appends_def write_temp_def os_remove_def is_checkout_def)

lemma all_ok_failed:
  assumes "all_ok w t vs" and "map co_event vs = pre @ c # post"
    and "c = Subprocess [''git'', ''checkout'', ''--quiet'', r] (Some d)"
    and "fst (run w (t @ pre) [''git'', ''checkout'', ''--quiet'', r] (Some d)) \<noteq> 0"
  shows False
  using all_ok_event [of w t vs pre r d post] assms by simp

lemma finalize_failed_checkout:
  assumes fin: "finalize w msg cd rolls t = (res, t')"
    and t': "t' = t @ pre @ Subprocess [''git'', ''checkout'', ''--quiet'', r] (Some d) # post"
    and fail: "fst (run w (t @ pre) [''git'', ''checkout'', ''--quiet'', r] (Some d)) \<noteq> 0"
  shows "post = [] \<and> res = Inl CalledProcessError \<and> (\<forall>e \<in> set (pre @ post). \<not> is_commit e)"
proof -
  define c where "c = Subprocess [''git'', ''checkout'', ''--quiet'', r] (Some d)"
  define vs where "vs = sort (map snd rolls)"
  have c: "is_checkout c" by (simp add: is_checkout_def c_def)
  have t'c: "t' = t @ pre @ c # post" using t' by (simp add: c_def)
  obtain r1 t1 where ch: "checkouts w vs t = (r1, t1)" by (cases "checkouts w vs t")
  have fin_eq: "finalize w msg cd rolls = bind (checkouts w vs) (\<lambda>_. after_checkouts w msg cd)"
    by (simp add: finalize_def after_checkouts_def vs_def)
  from checkouts_trace [OF ch]
  consider (ok) "r1 = Inr ()" "t1 = t @ map co_event vs" "all_ok w t vs"
    | (failed) ok v where "r1 = Inl CalledProcessError" "all_ok w t ok"
        "t1 = t @ map co_event ok @ [co_event v]"
    by blast
  then show ?thesis
  proof cases
    case ok
    from ch ok(1) have "bind (checkouts w vs) (\<lambda>_. after_checkouts w msg cd) t
                          = after_checkouts w msg cd t1"
      by (simp add: bind_Inr)
    with fin have ac: "after_checkouts w msg cd t1 = (res, t')" by (simp add: fin_eq)
    from appends_after_checkouts [of w msg cd] obtain tail where
      tail: "snd (after_checkouts w msg cd t1) = t1 @ tail" and nt: "\<forall>e \<in> set tail. \<not> is_checkout e"
      unfolding appends_def by blast
    from tail ac have "t' = t1 @ tail" by simp
    with ok(2) t'c have "t @ map co_event vs @ tail = t @ pre @ c # post" by simp
    then have eq: "map co_event vs @ tail = pre @ c # post" by simp
    from nt c have "c \<notin> set tail" by blast
    from split_in_first [OF eq this] obtain post2 where "map co_event vs = pre @ c # post2"
      by blast
    from all_ok_failed [OF ok(3) this c_def fail] show ?thesis ..
  next
    case failed
    from ch failed(1) have "bind (checkouts w vs) (\<lambda>_. after_checkouts w msg cd) t
                          = (Inl CalledProcessError, t1)"
      by (simp add: bind_Inl)
    with fin have res: "res = Inl CalledProcessError" and tt: "t' = t1"
      by (simp_all add: fin_eq)
    from tt failed(3) t'c have "t @ map co_event ok @ [co_event v] = t @ pre @ c # post" by simp
    then have eq: "map co_event ok @ [co_event v] = pre @ c # post" by simp
    have post: "post = []"
    proof (rule ccontr)
      assume "post \<noteq> []"
      then have "post = butlast post @ [last post]" by simp
      with eq have "map co_event ok @ [co_event v] = (pre @ c # butlast post) @ [last post]"
        by simp
      then have "map co_event ok = pre @ c # butlast post" by (simp only: append1_eq_conv)
      from all_ok_failed [OF failed(2) this c_def fail] show False .
    qed
    with eq have "map co_event ok = pre" by simp
    then have "\<forall>e \<in> set pre. \<not> is_commit e" by (auto simp: co_event_not_commit)
    with post res show ?thesis by simp
  qed
qed

section \<open>Lemmas on main\<close>

lemma eif_finalize: "ends_in_finalize w cd (finalize w msg cd rolls)"
  unfolding ends_in_finalize_def
proof (intro allI impI)
  fix t res t'
  assume "finalize w msg cd rolls t = (res, t')"
  then have "(\<forall>e \<in> set ([]::event list). quiet e) \<and> finalize w msg cd rolls (t @ []) = (res, t')"
    by simp
  then show "(\<exists>es. t' = t @ es \<and> (\<forall>e \<in> set es. quiet e))
      \<or> (\<exists>es msg rolls. (\<forall>e \<in> set es. quiet e)
            \<and> finalize w msg cd rolls (t @ es) = (res, t'))"
    by blast
qed

lemma eif_bind:
  assumes m: "appends quiet m" and f: "\<And>x. ends_in_finalize w cd (f x)"
  shows "ends_in_finalize w cd (bind m f)"
  unfolding ends_in_finalize_def
proof (intro allI impI)
  fix t res t'
  assume b: "bind m f t = (res, t')"
  from m obtain es1 where es1: "snd (m t) = t @ es1" and q1: "\<forall>e \<in> set es1. quiet e"
    unfolding appends_def by blast
  obtain r1 t1 where mt: "m t = (r1, t1)" by (cases "m t")
  with es1 have t1: "t1 = t @ es1" by simp
  show "(\<exists>es. t' = t @ es \<and> (\<forall>e \<in> set es. quiet e))
      \<or> (\<exists>es msg rolls. (\<forall>e \<in> set es. quiet e)
            \<and> finalize w msg cd rolls (t @ es) = (res, t'))"
  proof (cases r1)
    case (Inl e)
    with mt b have "t' = t1" by (simp add: bind_Inl)
    with t1 q1 show ?thesis by blast
  next
    case (Inr x)
    with mt b have fx: "f x t1 = (res, t')" by (simp add: bind_Inr)
    from f [of x] fx
    consider (quiet) es2 where "t' = t1 @ es2" "\<forall>e \<in> set es2. quiet e"
      | (fin) es2 msg rolls where "\<forall>e \<in> set es2. quiet e"
          "finalize w msg cd rolls (t1 @ es2) = (res, t')"
      unfolding ends_in_finalize_def by blast
    then show ?thesis
    proof cases
      case quiet
      with t1 q1 have "t' = t @ (es1 @ es2) \<and> (\<forall>e \<in> set (es1 @ es2). quiet e)" by auto
      then show ?thesis by blast
    next
      case fin
      with t1 q1 have "(\<forall>e \<in> set (es1 @ es2). quiet e)
          \<and> finalize w msg cd rolls (t @ (es1 @ es2)) = (res, t')" by auto
      then show ?thesis by blast
    qed
  qed
qed

lemma appends_check_clean: "appends quiet (check_clean w ign cd)"
  unfolding check_clean_def
  by (intro appends_if appends_bind appends_is_pristine appends_raise appends_ret)

lemma eif_main_try: "ends_in_finalize w cd (main_try w a reviewers root cd deps cmdline)"
  unfolding main_try_def
proof (intro eif_bind appends_check_clean appends_gather appends_messages)
  fix u :: unit and rolls :: "(string \<times> roll) list" and x :: "string list \<times> string list"
  obtain logs sa where x: "x = (logs, sa)" by (cases x)
  have "appends quiet (gclient w ([''setdep''] @ sa))"
    by (rule appends_gclient) simp_all
  then show "ends_in_finalize w cd
          (case x of (logs, setdep_args) \<Rightarrow>
             bind (gclient w ([''setdep''] @ setdep_args))
               (\<lambda>_. finalize w (gen_commit_msg logs cmdline reviewers (arg_bug a)) cd rolls))"
    unfolding x by (simp only: prod.case) (intro eif_bind eif_finalize)
qed

lemma finalize_eq:
  "finalize w msg cd rolls
     = bind (checkouts w (sort (map snd rolls))) (\<lambda>_. after_checkouts w msg cd)"
  by (simp add: finalize_def after_checkouts_def)

lemma appends_checkouts: "appends (\<lambda>e. True) (checkouts w vs)"
  by (induction vs) (auto intro!: appends_ret appends_bind appends_check_call)

lemma appends_after_checkouts_any: "appends (\<lambda>e. True) (after_checkouts w msg cd)"
  unfolding after_checkouts_def
  by (intro appends_bind appends_check_call)
     (auto simp: appends_def write_temp_def os_remove_def)

lemma finalize_appends: "\<exists>es. snd (finalize w msg cd rolls t) = t @ es"
proof -
  have "appends (\<lambda>e. True) (finalize w msg cd rolls)"
    unfolding finalize_eq
    by (intro appends_bind appends_checkouts appends_after_checkouts_any)
  then show ?thesis unfolding appends_def by blast
qed

lemma main_root_failed:
  assumes np: "\<not> (length (arg_dep_path a) > 1
      \<and> (arg_roll_to a \<noteq> ''origin/HEAD'' \<or> arg_key a \<noteq> []))"
    and g: "gclient w [''root''] [] = (Inl e, t0)"
  shows "main w a = (Traceback e, t0)"
  unfolding main_def Let_def by (simp only: np if_False g prod.case sum.case)

lemma main_after_root:
  assumes np: "\<not> (length (arg_dep_path a) > 1
      \<and> (arg_roll_to a \<noteq> ''origin/HEAD'' \<or> arg_key a \<noteq> []))"
    and d: "deps = sort (map (\<lambda>d. rstrip_slash (replace [CHR 0x5C] ''/'' d)) (arg_dep_path a))"
    and c: "cmdline = ''roll-dep '' @ join '' '' deps
                        @ concat (map (\<lambda>k. '' --key '' @ k) (arg_key a))"
    and g: "gclient w [''root''] [] = (Inr root, t0)"
    and m: "main_try w a (main_reviewers (arg_reviewer a)) root (getcwd w) deps cmdline t0
              = (res, t')"
  shows "main w a = ((case res of Inl e \<Rightarrow> handler e | Inr _ \<Rightarrow> Exit 0), t')"
proof -
  have "main w a =
      (case main_try w a (main_reviewers (arg_reviewer a)) root (getcwd w) deps cmdline t0 of
         (Inl e, t') \<Rightarrow> (handler e, t')
       | (Inr _, t') \<Rightarrow> (Exit 0, t'))"
    unfolding main_def Let_def c d by (simp only: np if_False g prod.case sum.case)
  then show ?thesis by (cases res) (simp_all only: m prod.case sum.case)
qed

lemma raise_apply: "raise e t = (Inl e, t)"
  by (simp add: raise_def)

section \<open>The order of the checkouts\<close>

lemma checkout_calls_append:
  "checkout_calls (xs @ ys) = checkout_calls xs @ checkout_calls ys"
  by (induction xs rule: checkout_calls.induct) auto

lemma checkout_calls_co_events: "checkout_calls (map co_event vs) = map snd vs"
  by (induction vs) (auto simp: co_event_def)

lemma checkout_calls_none:
  "\<forall>e \<in> set es. \<not> is_checkout e \<Longrightarrow> checkout_calls es = []"
  by (induction es rule: checkout_calls.induct) (auto simp: is_checkout_def)

text \<open>
  Claim C4, amended. \<open>finalize\<close> checks out the target revisions in the sorted order of
  the values of the plan, the triples of current revision, target revision and
  directory: the checkouts it performs are an initial part of that sorted list, and
  the whole list when it returns. The order is by current revision first, not by
  dependency path: in the counterexample below the paths \<open>a\<close> and \<open>b\<close> are checked out
  in the order \<open>b\<close>, \<open>a\<close>.
\<close>

theorem checkouts_sorted_by_values:
  "\<exists>k \<le> length rolls.
     checkout_calls (snd (finalize w msg cd rolls t))
       = checkout_calls t @ take k (map snd (sort (map snd rolls)))
     \<and> (fst (finalize w msg cd rolls t) = Inr () \<longrightarrow> k = length rolls)"
proof -
  define vs where "vs = sort (map snd rolls)"
  have len: "length vs = length rolls" by (simp add: vs_def)
  obtain r1 t1 where ch: "checkouts w vs t = (r1, t1)" by (cases "checkouts w vs t")
  have fin_eq: "finalize w msg cd rolls = bind (checkouts w vs) (\<lambda>_. after_checkouts w msg cd)"
    by (simp add: finalize_eq vs_def)
  from checkouts_trace [OF ch]
  consider (ok) "r1 = Inr ()" "t1 = t @ map co_event vs"
    | (failed) ok v rest where "r1 = Inl CalledProcessError" "vs = ok @ v # rest"
        "t1 = t @ map co_event ok @ [co_event v]"
    by blast
  then have "\<exists>k \<le> length vs.
     checkout_calls (snd (finalize w msg cd rolls t)) = checkout_calls t @ take k (map snd vs)
     \<and> (fst (finalize w msg cd rolls t) = Inr () \<longrightarrow> k = length vs)"
  proof cases
    case ok
    from ch ok(1) have f: "finalize w msg cd rolls t = after_checkouts w msg cd t1"
      by (simp add: fin_eq bind_Inr)
    from appends_after_checkouts [of w msg cd] obtain tail where
      tail: "snd (after_checkouts w msg cd t1) = t1 @ tail" and nt: "\<forall>e \<in> set tail. \<not> is_checkout e"
      unfolding appends_def by blast
    from f tail ok(2) have "snd (finalize w msg cd rolls t) = t @ map co_event vs @ tail" by simp
    then have "checkout_calls (snd (finalize w msg cd rolls t))
        = checkout_calls t @ take (length vs) (map snd vs)"
      by (simp add: checkout_calls_append checkout_calls_co_events checkout_calls_none [OF nt])
    then show ?thesis by blast
  next
    case failed
    from ch failed(1) have f: "finalize w msg cd rolls t = (Inl CalledProcessError, t1)"
      by (simp add: fin_eq bind_Inl)
    have "map co_event ok @ [co_event v] = map co_event (ok @ [v])" by simp
    with f failed(3) have "checkout_calls (snd (finalize w msg cd rolls t))
        = checkout_calls t @ map snd (ok @ [v])"
      by (simp only: snd_conv checkout_calls_append checkout_calls_co_events)
    moreover have "map snd (ok @ [v]) = take (Suc (length ok)) (map snd vs)"
      unfolding failed(2) by simp
    moreover have "Suc (length ok) \<le> length vs" unfolding failed(2) by simp
    moreover have "fst (finalize w msg cd rolls t) \<noteq> Inr ()" using f by simp
    ultimately show ?thesis by metis
  qed
  then show ?thesis unfolding vs_def by simp
qed

theorem checkouts_path_order_counterexample:
  "sort [''a'', ''b''] = [''a'', ''b'']
   \<and> checkout_calls (snd (main demo (demo_args [''a'', ''b''])))
       = [(''bb'', ''/r/b''), (''aa'', ''/r/a'')]
   \<and> checkout_calls (snd (main demo (demo_args [''a'', ''b''])))
       \<noteq> [(''aa'', ''/r/a''), (''bb'', ''/r/b'')]"
  by code_simp

theorem checkouts_sorted_by_values_witness:
  "checkout_calls (snd (finalize demo ''m'' ''/r''
      [(''a'', (''22'', ''aa'', ''/r/a'')), (''b'', (''11'', ''bb'', ''/r/b''))] []))
     = [(''bb'', ''/r/b''), (''aa'', ''/r/a'')]"
proof -
  let ?rolls = "[(''a'', (''22'', ''aa'', ''/r/a'')), (''b'', (''11'', ''bb'', ''/r/b''))]"
  have ok: "fst (finalize demo ''m'' ''/r'' ?rolls []) = Inr ()" by code_simp
  have srt: "sort (map snd ?rolls) = [(''11'', ''bb'', ''/r/b''), (''22'', ''aa'', ''/r/a'')]"
    by code_simp
  from checkouts_sorted_by_values [of ?rolls demo "''m''" "''/r''" "[]"]
  obtain k where "checkout_calls (snd (finalize demo ''m'' ''/r'' ?rolls []))
       = checkout_calls [] @ take k (map snd (sort (map snd ?rolls)))"
    and "fst (finalize demo ''m'' ''/r'' ?rolls []) = Inr () \<longrightarrow> k = length ?rolls"
    by blast
  with ok show ?thesis unfolding srt by simp
qed

section \<open>A checkout that fails\<close>

text \<open>
  Claim C6. If in a run of \<open>main\<close> a \<open>git checkout --quiet\<close> of \<open>finalize\<close> exits with a
  code other than 0, then the run ends there: the checkout is the last event of the
  trace, \<open>main\<close> returns 1, and no \<open>git commit\<close> is in the trace. So a commit is only
  ever performed after every checkout of the run has succeeded.
\<close>

theorem failed_checkout_aborts:
  assumes run: "main w a = (out, tr)"
    and tr: "tr = pre @ Subprocess [''git'', ''checkout'', ''--quiet'', r] (Some d) # post"
    and fail: "fst (run w pre [''git'', ''checkout'', ''--quiet'', r] (Some d)) \<noteq> 0"
  shows "out = Exit 1 \<and> post = []
     \<and> (\<forall>e \<in> set tr. \<forall>f cwd. e \<noteq> Subprocess [''git'', ''commit'', ''--quiet'', ''--file'', f] cwd)"
proof -
  define c where "c = Subprocess [''git'', ''checkout'', ''--quiet'', r] (Some d)"
  have c: "is_checkout c" by (simp add: is_checkout_def c_def)
  then have nq: "\<not> quiet c" by (simp add: quiet_def)
  have trc: "tr = pre @ c # post" using tr by (simp add: c_def)
  then have cin: "c \<in> set tr" by simp
  have noparse: "\<not> (length (arg_dep_path a) > 1
      \<and> (arg_roll_to a \<noteq> ''origin/HEAD'' \<or> arg_key a \<noteq> []))"
  proof
    assume "length (arg_dep_path a) > 1 \<and> (arg_roll_to a \<noteq> ''origin/HEAD'' \<or> arg_key a \<noteq> [])"
    with run have "tr = []" by (simp add: main_def)
    with cin show False by simp
  qed
  have "appends quiet (gclient w [''root''])" by (rule appends_gclient) simp_all
  then obtain es0 where es0: "snd (gclient w [''root''] []) = [] @ es0"
    and q0: "\<forall>e \<in> set es0. quiet e" unfolding appends_def by blast
  obtain r0 t0 where g0: "gclient w [''root''] [] = (r0, t0)" by (cases "gclient w [''root''] []")
  with es0 have t0: "t0 = es0" by simp
  show ?thesis
  proof (cases r0)
    case (Inl e)
    with g0 run main_root_failed [OF noparse, of w e t0] have "tr = t0" by simp
    with t0 q0 cin nq show ?thesis by blast
  next
    case (Inr root)
    define deps where "deps = sort (map (\<lambda>d. rstrip_slash (replace [CHR 0x5C] ''/'' d))
                                       (arg_dep_path a))"
    define cmdline where "cmdline = ''roll-dep '' @ join '' '' deps
                            @ concat (map (\<lambda>k. '' --key '' @ k) (arg_key a))"
    obtain res t' where mt: "main_try w a (main_reviewers (arg_reviewer a)) root (getcwd w)
        deps cmdline t0 = (res, t')"
      by (cases "main_try w a (main_reviewers (arg_reviewer a)) root (getcwd w) deps cmdline t0")
    from g0 Inr have g1: "gclient w [''root''] [] = (Inr root, t0)" by simp
    from main_after_root [OF noparse deps_def cmdline_def g1 mt] run
    have out: "out = (case res of Inl e \<Rightarrow> handler e | Inr _ \<Rightarrow> Exit 0)" and tt: "tr = t'"
      by simp_all
    from eif_main_try [of w "getcwd w" a "main_reviewers (arg_reviewer a)" root deps cmdline] mt
    consider (quiet) es where "t' = t0 @ es" "\<forall>e \<in> set es. quiet e"
      | (fin) es msg rolls where "\<forall>e \<in> set es. quiet e"
          "finalize w msg (getcwd w) rolls (t0 @ es) = (res, t')"
      unfolding ends_in_finalize_def by blast
    then show ?thesis
    proof cases
      case quiet
      with tt t0 q0 have "\<forall>e \<in> set tr. quiet e" by auto
      with cin nq show ?thesis by blast
    next
      case fin
      from finalize_appends [of w msg "getcwd w" rolls "t0 @ es"] fin(2)
      obtain esf where esf: "t' = (t0 @ es) @ esf" by auto
      from fin(1) t0 q0 have qpre: "\<forall>e \<in> set (t0 @ es). quiet e" by auto
      with nq have "c \<notin> set (t0 @ es)" by blast
      from split_in_second [OF _ this, of esf pre post] esf tt trc
      obtain pre2 where pre: "pre = (t0 @ es) @ pre2" and esf2: "esf = pre2 @ c # post" by auto
      from esf esf2 have t'2: "t' = (t0 @ es) @ pre2
          @ Subprocess [''git'', ''checkout'', ''--quiet'', r] (Some d) # post"
        by (simp add: c_def)
      from fail pre have fail2: "fst (run w ((t0 @ es) @ pre2)
          [''git'', ''checkout'', ''--quiet'', r] (Some d)) \<noteq> 0" by simp
      from finalize_failed_checkout [OF fin(2) t'2 fail2]
      have post: "post = []" and res: "res = Inl CalledProcessError"
        and nc: "\<forall>e \<in> set (pre2 @ post). \<not> is_commit e" by simp_all
      from res out have "out = Exit 1" by simp
      moreover have "\<forall>e \<in> set tr. \<not> is_commit e"
      proof
        fix e assume "e \<in> set tr"
        with tt esf esf2 have "e \<in> set (t0 @ es) \<or> e = c \<or> e \<in> set (pre2 @ post)" by auto
        then show "\<not> is_commit e"
        proof (elim disjE)
          assume "e \<in> set (t0 @ es)"
          with qpre show ?thesis by (auto simp: quiet_def)
        next
          assume "e = c"
          then show ?thesis by (simp add: c_def is_commit_def)
        next
          assume "e \<in> set (pre2 @ post)"
          with nc show ?thesis by blast
        qed
      qed
      then have "\<forall>e \<in> set tr. \<forall>f cwd.
          e \<noteq> Subprocess [''git'', ''commit'', ''--quiet'', ''--file'', f] cwd"
        by (auto simp: is_commit_def)
      ultimately show ?thesis using post by blast
    qed
  qed
qed

theorem failed_checkout_aborts_witness:
  "snd (main demo_fail (demo_args [''a''])) =
     [Subprocess [''py'', ''gc'', ''root''] None,
      Subprocess [''py'', ''gc'', ''root''] None,
      Subprocess [''py'', ''gc'', ''getdep'', ''-r'', ''a''] None,
      Subprocess [''git'', ''fetch'', ''origin'', ''--quiet''] (Some ''/r/a''),
      Subprocess [''git'', ''remote'', ''set-head'', ''origin'', ''-a''] (Some ''/r/a''),
      Subprocess [''git'', ''rev-parse'', ''origin/HEAD''] (Some ''/r/a''),
      Subprocess [''git'', ''config'', ''remote.origin.url''] (Some ''/r/a''),
      Subprocess [''git'', ''log'', ''22..aa'', ''--date=short'', ''--no-merges'',
        ''--format=%ad %ae %s'', ''--''] (Some ''/r/a''),
      Subprocess [''py'', ''gc'', ''setdep'', ''-r'', ''a@aa''] None,
      Subprocess [''git'', ''checkout'', ''--quiet'', ''aa''] (Some ''/r/a'')]
   \<and> fst (run demo_fail
        [Subprocess [''py'', ''gc'', ''root''] None,
         Subprocess [''py'', ''gc'', ''root''] None,
         Subprocess [''py'', ''gc'', ''getdep'', ''-r'', ''a''] None,
         Subprocess [''git'', ''fetch'', ''origin'', ''--quiet''] (Some ''/r/a''),
         Subprocess [''git'', ''remote'', ''set-head'', ''origin'', ''-a''] (Some ''/r/a''),
         Subprocess [''git'', ''rev-parse'', ''origin/HEAD''] (Some ''/r/a''),
         Subprocess [''git'', ''config'', ''remote.origin.url''] (Some ''/r/a''),
         Subprocess [''git'', ''log'', ''22..aa'', ''--date=short'', ''--no-merges'',
           ''--format=%ad %ae %s'', ''--''] (Some ''/r/a''),
         Subprocess [''py'', ''gc'', ''setdep'', ''-r'', ''a@aa''] None]
        [''git'', ''checkout'', ''--quiet'', ''aa''] (Some ''/r/a'')) \<noteq> 0
   \<and> fst (main demo_fail (demo_args [''a''])) = Exit 1"
proof -
  define pre where "pre =
    [Subprocess [''py'', ''gc'', ''root''] None,
     Subprocess [''py'', ''gc'', ''root''] None,
     Subprocess [''py'', ''gc'', ''getdep'', ''-r'', ''a''] None,
     Subprocess [''git'', ''fetch'', ''origin'', ''--quiet''] (Some ''/r/a''),
     Subprocess [''git'', ''remote'', ''set-head'', ''origin'', ''-a''] (Some ''/r/a''),
     Subprocess [''git'', ''rev-parse'', ''origin/HEAD''] (Some ''/r/a''),
     Subprocess [''git'', ''config'', ''remote.origin.url''] (Some ''/r/a''),
     Subprocess [''git'', ''log'', ''22..aa'', ''--date=short'', ''--no-merges'',
       ''--format=%ad %ae %s'', ''--''] (Some ''/r/a''),
     Subprocess [''py'', ''gc'', ''setdep'', ''-r'', ''a@aa''] None]"
  define tr where "tr = pre @ Subprocess [''git'', ''checkout'', ''--quiet'', ''aa''] (Some ''/r/a'') # []"
  have ev: "snd (main demo_fail (demo_args [''a''])) = tr"
    unfolding tr_def pre_def by code_simp
  then have run: "main demo_fail (demo_args [''a'']) = (fst (main demo_fail (demo_args [''a''])), tr)"
    by (metis prod.collapse)
  have fl: "fst (run demo_fail pre [''git'', ''checkout'', ''--quiet'', ''aa''] (Some ''/r/a'')) \<noteq> 0"
    unfolding pre_def by code_simp
  from failed_checkout_aborts [OF run tr_def fl]
  have "fst (main demo_fail (demo_args [''a''])) = Exit 1" by simp
  with ev fl show ?thesis unfolding tr_def pre_def by simp
qed

section \<open>Workspaces with submodules\<close>

text \<open>
  Claim C3 (the code does not do what the claim says). When \<open>is_submoduled\<close> answers
  \<open>True\<close>, \<open>calculate_roll\<close> does not return the revision of the submodule: it raises
  \<open>NameError\<close> for the unbound name \<open>submodule_path\<close>, right after \<open>is_submoduled\<close> and
  before any other command; \<open>get_submodule_rev\<close> itself raises \<open>NameError\<close> for the
  unbound name \<open>submodule\<close>; and \<open>main\<close> does not catch a \<open>NameError\<close>.
\<close>

theorem calculate_roll_submoduled:
  "(is_submoduled w t = (Inr True, t') \<longrightarrow>
      calculate_roll w full_dir dependency roll_to t = (Inl (NameError ''submodule_path''), t'))
   \<and> get_submodule_rev w path t = (Inl (NameError ''submodule''), t)
   \<and> handler (NameError m) = Traceback (NameError m)"
proof (intro conjI impI)
  assume "is_submoduled w t = (Inr True, t')"
  then show "calculate_roll w full_dir dependency roll_to t
      = (Inl (NameError ''submodule_path''), t')"
    unfolding calculate_roll_def
    by (simp add: bind_Inr bind_raise raise_apply)
next
  show "get_submodule_rev w path t = (Inl (NameError ''submodule''), t)"
    by (simp add: get_submodule_rev_def bind_raise raise_apply)
next
  show "handler (NameError m) = Traceback (NameError m)" by simp
qed

theorem calculate_roll_submoduled_witness:
  "is_submoduled demo_sub [] = (Inr True, [Subprocess [''py'', ''gc'', ''root''] None])
   \<and> calculate_roll demo_sub ''/r/a'' ''a'' ''origin/HEAD'' []
       = (Inl (NameError ''submodule_path''), [Subprocess [''py'', ''gc'', ''root''] None])
   \<and> main demo_sub (demo_args [''a''])
       = (Traceback (NameError ''submodule_path''),
          [Subprocess [''py'', ''gc'', ''root''] None, Subprocess [''py'', ''gc'', ''root''] None])"
proof -
  have s: "is_submoduled demo_sub [] = (Inr True, [Subprocess [''py'', ''gc'', ''root''] None])"
    by code_simp
  have m: "main demo_sub (demo_args [''a''])
       = (Traceback (NameError ''submodule_path''),
          [Subprocess [''py'', ''gc'', ''root''] None, Subprocess [''py'', ''gc'', ''root''] None])"
    by code_simp
  from calculate_roll_submoduled [of demo_sub "[]" "[Subprocess [''py'', ''gc'', ''root''] None]"
      "''/r/a''" "''a''" "''origin/HEAD''"] s m
  show ?thesis by simp
qed

section \<open>A dependency that is already at its target\<close>

lemma roll_one_equal:
  assumes "find_dir w root cd dep t = (Inr dir, t1)"
    and "calculate_roll w dir dep target t1 = (Inr (h, h), t2)"
  shows "roll_one w target root cd n dep rolls t =
     (if n = 1 then (Inl (AlreadyRolledError ''No revision to roll!''), t2) else (Inr rolls, t2))"
  using assms by (simp add: roll_one_def bind_Inr raise_apply ret_def)

text \<open>
  Claim C5. When \<open>calculate_roll\<close> returns equal current and target revisions for a
  dependency: if exactly one path was requested, \<open>main\<close> raises \<open>AlreadyRolledError\<close> and
  returns 2, with nothing done after \<open>calculate_roll\<close>; if the number of requested
  paths is not one, the round of the loop returns the plan unchanged, without an
  exception, and the loop goes on with the remaining dependencies.
\<close>

theorem already_rolled:
  "(arg_dep_path a = [p] \<longrightarrow>
    gclient w [''root''] [] = (Inr root, t1) \<longrightarrow>
    check_clean w (arg_ignore_dirty_tree a) (getcwd w) t1 = (Inr (), t2) \<longrightarrow>
    find_dir w root (getcwd w) (rstrip_slash (replace [CHR 0x5C] ''/'' p)) t2
      = (Inr full_dir, t3) \<longrightarrow>
    calculate_roll w full_dir (rstrip_slash (replace [CHR 0x5C] ''/'' p)) (arg_roll_to a) t3
      = (Inr (h, h), t4) \<longrightarrow>
    main w a = (Exit 2, t4))
   \<and> (n \<noteq> 1 \<longrightarrow>
      find_dir w root' cd dep s1 = (Inr dir, s2) \<longrightarrow>
      calculate_roll w dir dep target s2 = (Inr (h', h'), s3) \<longrightarrow>
      roll_one w target root' cd n dep rolls s1 = (Inr rolls, s3)
      \<and> gather w target root' cd n (dep # rest) rolls s1
          = gather w target root' cd n rest rolls s3)"
proof (intro conjI impI)
  assume p: "arg_dep_path a = [p]"
    and g: "gclient w [''root''] [] = (Inr root, t1)"
    and c: "check_clean w (arg_ignore_dirty_tree a) (getcwd w) t1 = (Inr (), t2)"
    and f: "find_dir w root (getcwd w) (rstrip_slash (replace [CHR 0x5C] ''/'' p)) t2
      = (Inr full_dir, t3)"
    and r: "calculate_roll w full_dir (rstrip_slash (replace [CHR 0x5C] ''/'' p)) (arg_roll_to a) t3
      = (Inr (h, h), t4)"
  define dep where "dep = rstrip_slash (replace [CHR 0x5C] ''/'' p)"
  define deps where "deps = sort (map (\<lambda>d. rstrip_slash (replace [CHR 0x5C] ''/'' d))
                                       (arg_dep_path a))"
  define cmdline where "cmdline = ''roll-dep '' @ join '' '' deps
                            @ concat (map (\<lambda>k. '' --key '' @ k) (arg_key a))"
  have deps: "deps = [dep]" by (simp add: deps_def dep_def p)
  have np: "\<not> (length (arg_dep_path a) > 1
      \<and> (arg_roll_to a \<noteq> ''origin/HEAD'' \<or> arg_key a \<noteq> []))" by (simp add: p)
  from roll_one_equal [OF f [folded dep_def] r [folded dep_def], of 1 "[]"]
  have "roll_one w (arg_roll_to a) root (getcwd w) 1 dep [] t2
      = (Inl (AlreadyRolledError ''No revision to roll!''), t4)" by simp
  then have "gather w (arg_roll_to a) root (getcwd w) (length deps) deps [] t2
      = (Inl (AlreadyRolledError ''No revision to roll!''), t4)"
    by (simp add: deps bind_Inl)
  with c have "main_try w a (main_reviewers (arg_reviewer a)) root (getcwd w) deps cmdline t1
      = (Inl (AlreadyRolledError ''No revision to roll!''), t4)"
    by (simp add: main_try_def bind_Inr bind_Inl)
  from main_after_root [OF np deps_def cmdline_def g this]
  show "main w a = (Exit 2, t4)" by simp
next
  assume n: "n \<noteq> 1"
    and f: "find_dir w root' cd dep s1 = (Inr dir, s2)"
    and r: "calculate_roll w dir dep target s2 = (Inr (h', h'), s3)"
  from roll_one_equal [OF f r, of n rolls] n
  show ro: "roll_one w target root' cd n dep rolls s1 = (Inr rolls, s3)" by simp
  then show "gather w target root' cd n (dep # rest) rolls s1
          = gather w target root' cd n rest rolls s3"
    by (simp add: bind_Inr)
qed

theorem already_rolled_witness:
  "main demo (demo_args [''c'']) =
     (Exit 2,
      [Subprocess [''py'', ''gc'', ''root''] None,
       Subprocess [''py'', ''gc'', ''root''] None,
       Subprocess [''py'', ''gc'', ''getdep'', ''-r'', ''c''] None,
       Subprocess [''git'', ''fetch'', ''origin'', ''--quiet''] (Some ''/r/c''),
       Subprocess [''git'', ''remote'', ''set-head'', ''origin'', ''-a''] (Some ''/r/c''),
       Subprocess [''git'', ''rev-parse'', ''origin/HEAD''] (Some ''/r/c'')])
   \<and> roll_one demo ''origin/HEAD'' ''/r'' ''/r'' 2 ''c'' [] [] =
       (Inr [],
        [Subprocess [''py'', ''gc'', ''root''] None,
         Subprocess [''py'', ''gc'', ''getdep'', ''-r'', ''c''] None,
         Subprocess [''git'', ''fetch'', ''origin'', ''--quiet''] (Some ''/r/c''),
         Subprocess [''git'', ''remote'', ''set-head'', ''origin'', ''-a''] (Some ''/r/c''),
         Subprocess [''git'', ''rev-parse'', ''origin/HEAD''] (Some ''/r/c'')])
   \<and> fst (main demo (demo_args [''c'', ''a''])) = Exit 0"
proof -
  define t1 where "t1 = [Subprocess [''py'', ''gc'', ''root''] None]"
  define s3 where "s3 =
        [Subprocess [''py'', ''gc'', ''root''] None,
         Subprocess [''py'', ''gc'', ''getdep'', ''-r'', ''c''] None,
         Subprocess [''git'', ''fetch'', ''origin'', ''--quiet''] (Some ''/r/c''),
         Subprocess [''git'', ''remote'', ''set-head'', ''origin'', ''-a''] (Some ''/r/c''),
         Subprocess [''git'', ''rev-parse'', ''origin/HEAD''] (Some ''/r/c'')]"
  have p: "arg_dep_path (demo_args [''c'']) = [''c'']" by (simp add: demo_args_def)
  have g: "gclient demo [''root''] [] = (Inr ''/r'', t1)" unfolding t1_def by code_simp
  have c: "check_clean demo (arg_ignore_dirty_tree (demo_args [''c''])) (getcwd demo) t1
             = (Inr (), t1)" unfolding t1_def by code_simp
  have f: "find_dir demo ''/r'' (getcwd demo) (rstrip_slash (replace [CHR 0x5C] ''/'' ''c'')) t1
             = (Inr ''/r/c'', t1)" unfolding t1_def by code_simp
  have r: "calculate_roll demo ''/r/c'' (rstrip_slash (replace [CHR 0x5C] ''/'' ''c''))
             (arg_roll_to (demo_args [''c''])) t1 = (Inr (''cc'', ''cc''), t1 @ s3)"
    unfolding t1_def s3_def by code_simp
  have f2: "find_dir demo ''/r'' ''/r'' ''c'' [] = (Inr ''/r/c'', [])" by code_simp
  have r2: "calculate_roll demo ''/r/c'' ''c'' ''origin/HEAD'' [] = (Inr (''cc'', ''cc''), s3)"
    unfolding s3_def by code_simp
  have m: "fst (main demo (demo_args [''c'', ''a''])) = Exit 0" by code_simp
  have n: "(2::nat) \<noteq> 1" by simp
  from already_rolled [of "demo_args [''c'']" "''c''" demo "''/r''" t1 t1 "''/r/c''" t1 "''cc''"
      "t1 @ s3" 2 "''/r''" "''/r''" "''c''" "[]" "''/r/c''" "[]" "''origin/HEAD''" "''cc''" s3 "[]" "[]"]
    p g c f r f2 r2 n m
  show ?thesis unfolding t1_def s3_def by simp
qed

end
